theory Spec2Isabelle
  imports Complex_Main "HOL-Library.Sublist"
begin

section \<open>Strings of the document parser\<close>

text \<open>
  The parser of \<^verbatim>\<open>mcp-servers/document-parser/main.py\<close> works on Python \<^verbatim>\<open>str\<close>
  values, sequences of Unicode code points. The characters of the model are the
  code points 0 to 255 (Latin-1) and the three further characters that
  \<^verbatim>\<open>re.IGNORECASE\<close> or \<^verbatim>\<open>str.lower\<close> identify with an ASCII letter and whose
  lowercase is one character: the dotless i (U+0131), the long s (U+017F) and
  the Kelvin sign (U+212A). This alphabet is closed under \<^verbatim>\<open>str.lower\<close>, and the
  functions below are Python's on it. A text is a list of such characters, so
  \<^const>\<open>length\<close> counts code points as Python does; \<open>ustr\<close> writes a text
  of Latin-1 characters by its \<^typ>\<open>string\<close>.
\<close>

datatype uchar = Chr char | Dotless_i | Long_s | Kelvin

type_synonym ustring = "uchar list"

abbreviation ustr :: "string \<Rightarrow> ustring" where
  "ustr s \<equiv> map Chr s"

definition code :: "uchar \<Rightarrow> nat" where
  "code x = (case x of Chr c \<Rightarrow> of_char c | Dotless_i \<Rightarrow> 305 | Long_s \<Rightarrow> 383 | Kelvin \<Rightarrow> 8490)"

definition newline :: uchar where
  "newline = Chr (CHR 0x0A)"

text \<open>\<^verbatim>\<open>str.isspace\<close> and the regex class \<^verbatim>\<open>\s\<close>: tab to carriage return, the four
  separators 28 to 31, the space, NEL and the no-break space.\<close>

definition is_space :: "uchar \<Rightarrow> bool" where
  "is_space c =
     (let n = code c
      in (9 \<le> n \<and> n \<le> 13) \<or> (28 \<le> n \<and> n \<le> 32) \<or> n = 133 \<or> n = 160)"

text \<open>The regex class \<^verbatim>\<open>\d\<close> (decimal digits; in the alphabet these are 0 to 9).\<close>

definition is_digit :: "uchar \<Rightarrow> bool" where
  "is_digit c = (let n = code c in 48 \<le> n \<and> n \<le> 57)"

text \<open>\<^verbatim>\<open>str.lower\<close> on one character. In Latin-1, A to Z and the capital letters
  192 to 222 (without the multiplication sign 215) move up by 32; in both
  ranges the bit of weight 32 is clear, so adding 32 is setting that bit
  (\<open>of_char_lower_latin1\<close> below). The Kelvin sign becomes \<^verbatim>\<open>k\<close>; the dotless i and
  the long s are lowercase letters and stay.\<close>

definition lower_latin1 :: "char \<Rightarrow> char" where
  "lower_latin1 c =
     (let n = (of_char c :: nat)
      in if (65 \<le> n \<and> n \<le> 90) \<or> (192 \<le> n \<and> n \<le> 222 \<and> n \<noteq> 215)
         then (case c of Char b0 b1 b2 b3 b4 b5 b6 b7 \<Rightarrow> Char b0 b1 b2 b3 b4 True b6 b7)
         else c)"

definition lower_chr :: "uchar \<Rightarrow> uchar" where
  "lower_chr x =
     (case x of
        Chr c \<Rightarrow> Chr (lower_latin1 c)
      | Dotless_i \<Rightarrow> Dotless_i
      | Long_s \<Rightarrow> Long_s
      | Kelvin \<Rightarrow> Chr CHR ''k'')"

definition lower :: "ustring \<Rightarrow> ustring" where
  "lower s = map lower_chr s"

text \<open>A literal of a pattern compiled with \<^verbatim>\<open>re.IGNORECASE\<close> against a character of
  the text: equal up to case, where the dotless i also counts as \<^verbatim>\<open>i\<close>, the long
  s as \<^verbatim>\<open>s\<close> and the Kelvin sign as \<^verbatim>\<open>k\<close>.\<close>

definition ignorecase_eq :: "char \<Rightarrow> uchar \<Rightarrow> bool" where
  "ignorecase_eq c x =
     (case x of
        Chr y \<Rightarrow> lower_latin1 c = lower_latin1 y
      | Dotless_i \<Rightarrow> lower_latin1 c = CHR ''i''
      | Long_s \<Rightarrow> lower_latin1 c = CHR ''s''
      | Kelvin \<Rightarrow> lower_latin1 c = CHR ''k'')"

text \<open>\<^verbatim>\<open>str.strip()\<close> removes whitespace at both ends.\<close>

definition strip :: "ustring \<Rightarrow> ustring" where
  "strip s = rev (dropWhile is_space (rev (dropWhile is_space s)))"

text \<open>\<^verbatim>\<open>text.split('\n')\<close>: the pieces between newlines; never the empty list.\<close>

fun split_nl :: "ustring \<Rightarrow> ustring list" where
  "split_nl [] = [[]]"
| "split_nl (c # cs) =
     (if c = newline then [] # split_nl cs
      else (case split_nl cs of [] \<Rightarrow> [[c]] | l # ls \<Rightarrow> (c # l) # ls))"

text \<open>\<^verbatim>\<open>sub in s\<close> on strings: \<open>sub\<close> occurs in \<open>s\<close> as a contiguous piece.\<close>

fun py_in :: "'a list \<Rightarrow> 'a list \<Rightarrow> bool" where
  "py_in sub [] = (sub = [])"
| "py_in sub (c # cs) = (prefix sub (c # cs) \<or> py_in sub cs)"

text \<open>\<^verbatim>\<open>s.replace(',', '')\<close>.\<close>

definition remove_commas :: "ustring \<Rightarrow> ustring" where
  "remove_commas s = filter (\<lambda>c. c \<noteq> Chr CHR '','') s"

section \<open>The unit resolver\<close>

text \<open>
  \<^verbatim>\<open>DocumentParser._determine_unit\<close> (lines 240 to 255): an \<^verbatim>\<open>if\<close>/\<^verbatim>\<open>elif\<close> chain of
  substring tests on the lowercased context.
\<close>

definition determine_unit :: "ustring \<Rightarrow> string" where
  "determine_unit context =
     (let context_lower = lower context
      in if py_in (ustr ''billion'') context_lower \<or> py_in (ustr '' b'') context_lower
           then ''billions''
         else if py_in (ustr ''million'') context_lower \<or> py_in (ustr '' m'') context_lower
           then ''millions''
         else if py_in (ustr ''thousand'') context_lower \<or> py_in (ustr '' k'') context_lower
           then ''thousands''
         else if py_in (ustr ''%'') context_lower \<or> py_in (ustr ''percent'') context_lower
           then ''percentage''
         else if py_in (ustr ''ratio'') context_lower then ''ratio''
         else ''units'')"

text \<open>
  The resolution order in the words of the specification, where the single letters
  count only as standalone tokens: a whitespace-separated word of the context that
  is exactly that letter.
\<close>

fun words :: "ustring \<Rightarrow> ustring list" where
  "words [] = [[]]"
| "words (c # cs) =
     (if is_space c then [] # words cs
      else (case words cs of [] \<Rightarrow> [[c]] | w # ws \<Rightarrow> (c # w) # ws))"

definition standalone_token :: "ustring \<Rightarrow> ustring \<Rightarrow> bool" where
  "standalone_token t s = (t \<in> set (words s))"

definition spec_unit :: "ustring \<Rightarrow> string" where
  "spec_unit context =
     (let c = lower context
      in if py_in (ustr ''billion'') c \<or> standalone_token (ustr ''b'') c then ''billions''
         else if py_in (ustr ''million'') c \<or> standalone_token (ustr ''m'') c then ''millions''
         else if py_in (ustr ''thousand'') c \<or> standalone_token (ustr ''k'') c then ''thousands''
         else if py_in (ustr ''%'') c \<or> py_in (ustr ''percent'') c then ''percentage''
         else if py_in (ustr ''ratio'') c then ''ratio''
         else ''units'')"

section \<open>Regular expressions\<close>

text \<open>
  The patterns of the parser use literals, the classes \<^verbatim>\<open>.\<close>, \<^verbatim>\<open>\s\<close>, \<^verbatim>\<open>\d\<close> and
  bracket sets, concatenation, alternation, one capture group, and the greedy
  repetitions \<^verbatim>\<open>*\<close>, \<^verbatim>\<open>+\<close> (on a single class only) and \<^verbatim>\<open>?\<close>.
\<close>

datatype atom =
    Lit char
  | Dot
  | Space
  | Digit
  | Range char char
  | OneOf "atom list"

text \<open>Which characters an atom accepts. Every \<^verbatim>\<open>finditer\<close> of the parser passes
  \<^verbatim>\<open>re.IGNORECASE\<close>, so a literal is compared up to case; the \<^verbatim>\<open>re.search\<close> of
  the table detector has no letter in its pattern. \<^verbatim>\<open>.\<close> accepts
  everything but the newline. The ranges of the patterns hold digits only, so
  a range is compared by code point.\<close>

fun accepts :: "atom \<Rightarrow> uchar \<Rightarrow> bool" where
  "accepts (Lit c) x = ignorecase_eq c x"
| "accepts Dot x = (x \<noteq> newline)"
| "accepts Space x = is_space x"
| "accepts Digit x = is_digit x"
| "accepts (Range lo hi) x = ((of_char lo :: nat) \<le> code x \<and> code x \<le> of_char hi)"
| "accepts (OneOf as) x = (\<exists>a \<in> set as. accepts a x)"

datatype regex =
    Atom atom
  | Eps
  | Seq regex regex
  | Alt regex regex
  | Star atom
  | Plus atom
  | Opt regex
  | Group regex

text \<open>A match: the text it consumed (group 0), group 1 when it took part, and
  the text left after the match.\<close>

type_synonym rmatch = "ustring \<times> ustring option \<times> ustring"

text \<open>All ways for a greedy \<^verbatim>\<open>a*\<close> to match at the start of a text, as
  (consumed, rest), in the order a backtracking matcher tries them: longest first.\<close>

fun star_ms :: "atom \<Rightarrow> ustring \<Rightarrow> (ustring \<times> ustring) list" where
  "star_ms a [] = [([], [])]"
| "star_ms a (x # xs) =
     (if accepts a x
      then map (\<lambda>(c, r). (x # c, r)) (star_ms a xs) @ [([], x # xs)]
      else [([], x # xs)])"

text \<open>All matches of a regex at the start of a text, in the order in which
  Python's backtracking matcher finds them: the left alternative before the
  right one, the greedy choice before the lazy one, and for a concatenation the
  choices of the first part vary slowest.\<close>

fun ms :: "regex \<Rightarrow> ustring \<Rightarrow> rmatch list" where
  "ms (Atom a) s =
     (case s of [] \<Rightarrow> [] | x # xs \<Rightarrow> if accepts a x then [([x], None, xs)] else [])"
| "ms Eps s = [([], None, s)]"
| "ms (Seq r1 r2) s =
     concat (map (\<lambda>(c1, g1, s1).
               map (\<lambda>(c2, g2, s2). (c1 @ c2, (case g2 of None \<Rightarrow> g1 | Some g \<Rightarrow> Some g), s2))
                   (ms r2 s1))
             (ms r1 s))"
| "ms (Alt r1 r2) s = ms r1 s @ ms r2 s"
| "ms (Star a) s = map (\<lambda>(c, r). (c, None, r)) (star_ms a s)"
| "ms (Plus a) s = map (\<lambda>(c, r). (c, None, r)) (filter (\<lambda>(c, r). c \<noteq> []) (star_ms a s))"
| "ms (Opt r) s = ms r s @ [([], None, s)]"
| "ms (Group r) s = map (\<lambda>(c, g, s'). (c, Some c, s')) (ms r s)"

text \<open>\<^verbatim>\<open>pattern.match\<close> at one position: the first match in that order.\<close>

definition match_here :: "regex \<Rightarrow> ustring \<Rightarrow> rmatch option" where
  "match_here r s = (case ms r s of [] \<Rightarrow> None | m # _ \<Rightarrow> Some m)"

text \<open>\<^verbatim>\<open>re.search\<close>: the match at the leftmost position that has one.\<close>

fun re_search :: "regex \<Rightarrow> ustring \<Rightarrow> rmatch option" where
  "re_search r [] = match_here r []"
| "re_search r (c # cs) =
     (case match_here r (c # cs) of Some m \<Rightarrow> Some m | None \<Rightarrow> re_search r cs)"

text \<open>\<^verbatim>\<open>re.finditer\<close>: the non-overlapping matches from left to right; after a
  match the scan goes on where the match ended. A match that consumed nothing
  moves the scan one character on.\<close>

function finditer :: "regex \<Rightarrow> ustring \<Rightarrow> rmatch list" where
  "finditer r [] = (case match_here r [] of None \<Rightarrow> [] | Some m \<Rightarrow> [m])"
| "finditer r (c # cs) =
     (case match_here r (c # cs) of
        None \<Rightarrow> finditer r cs
      | Some (g0, g1, rest) \<Rightarrow>
          if length rest < length (c # cs) then (g0, g1, rest) # finditer r rest
          else (g0, g1, rest) # finditer r cs)"
  by pat_completeness auto
termination
  by (relation "measure (\<lambda>(r, s). length s)") auto

text \<open>Building blocks for writing a pattern the way its source text reads.
  \<open>str\<close> is a piece of pattern text without operators: a \<^verbatim>\<open>.\<close> in it is the
  class, every other character stands for itself.\<close>

definition str :: "string \<Rightarrow> regex" where
  "str s = foldr (\<lambda>c r. Seq (Atom (if c = CHR ''.'' then Dot else Lit c)) r) s Eps"

definition seqs :: "regex list \<Rightarrow> regex" where
  "seqs rs = foldr Seq rs Eps"

fun alts :: "regex list \<Rightarrow> regex" where
  "alts [] = Eps"
| "alts [r] = r"
| "alts (r # rs) = Alt r (alts rs)"

section \<open>Errors and floats\<close>

datatype error =
    ValueError
  | IndexError
  | AttributeError
  | HTTPException nat

text \<open>
  A Python \<^verbatim>\<open>float\<close> read from a decimal string: \<open>Finite q\<close> stands for the
  binary64 number nearest to the rational \<open>q\<close>; the rounding itself is not
  modelled, the overflow is. A decimal of magnitude at least \<open>2^1024 - 2^970\<close>
  (halfway between the largest binary64 number and \<open>2^1024\<close>) reads as an
  infinity: \<^verbatim>\<open>float\<close> does not raise on overflow.
\<close>

datatype pyfloat = Finite rat | PosInf | NegInf

definition overflow_bound :: rat where
  "overflow_bound = 2 ^ 1024 - 2 ^ 970"

definition to_double :: "rat \<Rightarrow> pyfloat" where
  "to_double q =
     (if overflow_bound \<le> q then PosInf
      else if q \<le> - overflow_bound then NegInf
      else Finite q)"

definition digits_value :: "ustring \<Rightarrow> nat" where
  "digits_value s = foldl (\<lambda>n c. 10 * n + (code c - 48)) 0 s"

text \<open>
  \<^verbatim>\<open>float(s)\<close> on the strings that can reach it here, which hold only digits and
  dots (see \<open>finditer_captured\<close> below): an optional sign, digits, an optional dot
  and digits, with a digit on at least one side of the dot; anything else raises
  \<^verbatim>\<open>ValueError\<close>. The other spellings \<^verbatim>\<open>float\<close> accepts (exponents, underscores,
  \<^verbatim>\<open>inf\<close>, \<^verbatim>\<open>nan\<close>, surrounding whitespace) all need a character outside that set.
\<close>

definition py_float :: "ustring \<Rightarrow> error + pyfloat" where
  "py_float s =
     (let (neg, body) =
            (case s of
               [] \<Rightarrow> (False, [])
             | c # cs \<Rightarrow> if c = Chr CHR ''-'' then (True, cs)
                        else if c = Chr CHR ''+'' then (False, cs)
                        else (False, s));
          ip = takeWhile is_digit body;
          after = dropWhile is_digit body;
          fp = (case after of [] \<Rightarrow> [] | c # cs \<Rightarrow> cs)
      in if (case after of [] \<Rightarrow> False | c # cs \<Rightarrow> c \<noteq> Chr CHR ''.'')
            \<or> \<not> list_all is_digit fp \<or> (ip = [] \<and> fp = [])
         then Inl ValueError
         else (let q = of_nat (digits_value (ip @ fp)) / 10 ^ length fp
               in Inr (to_double (if neg then - q else q))))"

section \<open>The pattern registry\<close>

record FinancialMetric =
  m_name :: string
  m_value :: pyfloat
  m_unit :: string
  m_period :: string
  m_source :: string
  m_confidence :: rat

text \<open>The pieces the fourteen patterns of \<^verbatim>\<open>_load_financial_patterns\<close> share.\<close>

definition sep_money :: regex where
  \<comment> \<open>\<^verbatim>\<open>[\s:$]*\<close>\<close>
  "sep_money = Star (OneOf [Space, Lit CHR '':'', Lit CHR ''$''])"

definition sep_plain :: regex where
  \<comment> \<open>\<^verbatim>\<open>[\s:]*\<close>\<close>
  "sep_plain = Star (OneOf [Space, Lit CHR '':''])"

definition number_group :: regex where
  \<comment> \<open>\<^verbatim>\<open>([0-9,]+\.?[0-9]*)\<close>\<close>
  "number_group =
     Group (seqs [Plus (OneOf [Range CHR ''0'' CHR ''9'', Lit CHR '','']),
                  Opt (Atom (Lit CHR ''.'')),
                  Star (Range CHR ''0'' CHR ''9'')])"

definition magnitude :: regex where
  \<comment> \<open>\<^verbatim>\<open>\s*(?:million|billion|thousand|M|B|K)?\<close>\<close>
  "magnitude =
     seqs [Star Space,
           Opt (alts [str ''million'', str ''billion'', str ''thousand'',
                      str ''M'', str ''B'', str ''K''])]"

definition percent :: regex where
  \<comment> \<open>\<^verbatim>\<open>%?\<close>\<close>
  "percent = Opt (Atom (Lit CHR ''%''))"

text \<open>The registry, in the order of the dictionary literal (lines 76 to 89).\<close>

definition load_financial_patterns :: "(string \<times> regex) list" where
  "load_financial_patterns =
    [(''revenue'',
        seqs [alts [str ''revenue'', str ''sales'', str ''net sales'', str ''total revenue''],
              sep_money, number_group, magnitude]),
     (''net_income'',
        seqs [alts [str ''net income'', str ''net profit'', str ''net earnings''],
              sep_money, number_group, magnitude]),
     (''eps'',
        seqs [alts [str ''earnings per share'', str ''eps''], sep_money, number_group]),
     (''pe_ratio'',
        seqs [alts [str ''p/e ratio'', str ''pe ratio'', str ''price.earnings''],
              sep_plain, number_group]),
     (''pb_ratio'',
        seqs [alts [str ''p/b ratio'', str ''pb ratio'', str ''price.book''],
              sep_plain, number_group]),
     (''debt_to_equity'',
        seqs [alts [str ''debt.to.equity'', str ''debt/equity'', str ''d/e''],
              sep_plain, number_group]),
     (''current_ratio'',
        seqs [str ''current ratio'', sep_plain, number_group]),
     (''gross_margin'',
        seqs [alts [str ''gross margin'', str ''gross profit margin''],
              sep_plain, number_group, percent]),
     (''operating_margin'',
        seqs [alts [str ''operating margin'', str ''operating profit margin''],
              sep_plain, number_group, percent]),
     (''net_margin'',
        seqs [alts [str ''net margin'', str ''net profit margin''],
              sep_plain, number_group, percent]),
     (''roe'',
        seqs [alts [str ''return on equity'', str ''roe''], sep_plain, number_group, percent]),
     (''roa'',
        seqs [alts [str ''return on assets'', str ''roa''], sep_plain, number_group, percent]),
     (''cash_flow'',
        seqs [alts [str ''cash flow'', str ''operating cash flow''],
              sep_money, number_group, magnitude]),
     (''market_cap'',
        seqs [alts [str ''market cap'', str ''market capitalization''],
              sep_money, number_group, magnitude])]"

text \<open>The shape all fourteen patterns have: a label, separators, the number
  group, and a tail, where only the number group captures.\<close>

fun nogroup :: "regex \<Rightarrow> bool" where
  "nogroup (Atom a) = True"
| "nogroup Eps = True"
| "nogroup (Seq r1 r2) = (nogroup r1 \<and> nogroup r2)"
| "nogroup (Alt r1 r2) = (nogroup r1 \<and> nogroup r2)"
| "nogroup (Star a) = True"
| "nogroup (Plus a) = True"
| "nogroup (Opt r) = nogroup r"
| "nogroup (Group r) = False"

fun number_captured :: "regex \<Rightarrow> bool" where
  "number_captured (Seq label (Seq sep (Seq num tail))) =
     (num = number_group \<and> nogroup label \<and> nogroup sep \<and> nogroup tail)"
| "number_captured _ = False"

section \<open>The metric extractor\<close>

text \<open>
  The body of the \<^verbatim>\<open>try\<close> (lines 219 to 232) for one match. \<^verbatim>\<open>match.group(1)\<close>
  is \<^verbatim>\<open>None\<close> when the group took no part in the match, and \<^verbatim>\<open>None.replace\<close>
  raises \<^verbatim>\<open>AttributeError\<close>; \<^verbatim>\<open>float\<close> raises \<^verbatim>\<open>ValueError\<close>.
\<close>

definition metric_of_match :: "string \<Rightarrow> rmatch \<Rightarrow> error + FinancialMetric" where
  "metric_of_match metric_name m =
     (case m of (group0, group1, rest) \<Rightarrow>
        (case group1 of
           None \<Rightarrow> Inl AttributeError
         | Some g \<Rightarrow>
             (case py_float (remove_commas g) of
                Inl e \<Rightarrow> Inl e
              | Inr v \<Rightarrow>
                  Inr \<lparr> m_name = metric_name, m_value = v, m_unit = determine_unit group0,
                        m_period = ''current'', m_source = ''document_extraction'',
                        m_confidence = 7 / 10 \<rparr>)))"

text \<open>The inner loop over the matches of one pattern: \<^verbatim>\<open>except (ValueError,
  IndexError): continue\<close>; any other exception leaves the function.\<close>

fun match_loop :: "string \<Rightarrow> rmatch list \<Rightarrow> FinancialMetric list \<Rightarrow> error + FinancialMetric list" where
  "match_loop metric_name [] metrics = Inr metrics"
| "match_loop metric_name (m # matches) metrics =
     (case metric_of_match metric_name m of
        Inr metric \<Rightarrow> match_loop metric_name matches (metrics @ [metric])
      | Inl e \<Rightarrow>
          if e = ValueError \<or> e = IndexError then match_loop metric_name matches metrics
          else Inl e)"

text \<open>The outer loop over the registry.\<close>

fun pattern_loop :: "(string \<times> regex) list \<Rightarrow> ustring \<Rightarrow> FinancialMetric list \<Rightarrow> error + FinancialMetric list" where
  "pattern_loop [] text_lower metrics = Inr metrics"
| "pattern_loop ((metric_name, pattern) # patterns) text_lower metrics =
     (case match_loop metric_name (finditer pattern text_lower) metrics of
        Inl e \<Rightarrow> Inl e
      | Inr metrics' \<Rightarrow> pattern_loop patterns text_lower metrics')"

definition extract_financial_metrics :: "ustring \<Rightarrow> error + FinancialMetric list" where
  "extract_financial_metrics text =
     (let text_lower = lower text
      in pattern_loop load_financial_patterns text_lower [])"

text \<open>What one match adds to the result: its metric, or nothing when the
  \<^verbatim>\<open>try\<close> body raised.\<close>

definition emitted :: "string \<Rightarrow> rmatch \<Rightarrow> FinancialMetric list" where
  "emitted metric_name m = (case metric_of_match metric_name m of Inl e \<Rightarrow> [] | Inr metric \<Rightarrow> [metric])"

text \<open>The captured text of a match reads as a number once its commas are gone.\<close>

definition number_parses :: "rmatch \<Rightarrow> bool" where
  "number_parses m =
     (case fst (snd m) of
        None \<Rightarrow> False
      | Some g \<Rightarrow> (case py_float (remove_commas g) of Inl e \<Rightarrow> False | Inr v \<Rightarrow> True))"

text \<open>The lexical cues of the registry: the label alternatives of the fourteen
  patterns, as pattern text, by metric name.\<close>

definition pattern_cues :: "(string \<times> string list) list" where
  "pattern_cues =
     [(''revenue'', [''revenue'', ''sales'', ''net sales'', ''total revenue'']),
      (''net_income'', [''net income'', ''net profit'', ''net earnings'']),
      (''eps'', [''earnings per share'', ''eps'']),
      (''pe_ratio'', [''p/e ratio'', ''pe ratio'', ''price.earnings'']),
      (''pb_ratio'', [''p/b ratio'', ''pb ratio'', ''price.book'']),
      (''debt_to_equity'', [''debt.to.equity'', ''debt/equity'', ''d/e'']),
      (''current_ratio'', [''current ratio'']),
      (''gross_margin'', [''gross margin'', ''gross profit margin'']),
      (''operating_margin'', [''operating margin'', ''operating profit margin'']),
      (''net_margin'', [''net margin'', ''net profit margin'']),
      (''roe'', [''return on equity'', ''roe'']),
      (''roa'', [''return on assets'', ''roa'']),
      (''cash_flow'', [''cash flow'', ''operating cash flow'']),
      (''market_cap'', [''market cap'', ''market capitalization''])]"

definition lexical_cues :: "string list" where
  "lexical_cues = concat (map snd pattern_cues)"

text \<open>A cue stands at the start of a text when each of its characters fits the
  text's character at that place: \<^verbatim>\<open>.\<close> fits everything but a newline, another
  character fits as a literal under \<^verbatim>\<open>re.IGNORECASE\<close> does (in either letter
  case, the dotless i for \<^verbatim>\<open>i\<close>, the long s for \<^verbatim>\<open>s\<close>, the Kelvin sign for
  \<^verbatim>\<open>k\<close>).\<close>

fun cue_at :: "string \<Rightarrow> ustring \<Rightarrow> bool" where
  "cue_at [] s = True"
| "cue_at (p # ps) [] = False"
| "cue_at (p # ps) (x # xs) =
     ((if p = CHR ''.'' then x \<noteq> newline else ignorecase_eq p x) \<and> cue_at ps xs)"

fun cue_in :: "string \<Rightarrow> ustring \<Rightarrow> bool" where
  "cue_in cue [] = cue_at cue []"
| "cue_in cue (x # xs) = (cue_at cue (x # xs) \<or> cue_in cue xs)"

text \<open>A cue in the plain reading of the specification: its letters in either
  letter case and nothing else.\<close>

fun plain_cue_at :: "string \<Rightarrow> ustring \<Rightarrow> bool" where
  "plain_cue_at [] s = True"
| "plain_cue_at (p # ps) [] = False"
| "plain_cue_at (p # ps) (x # xs) =
     ((if p = CHR ''.'' then x \<noteq> newline
       else (case x of Chr y \<Rightarrow> lower_latin1 p = lower_latin1 y | _ \<Rightarrow> False))
      \<and> plain_cue_at ps xs)"

fun plain_cue_in :: "string \<Rightarrow> ustring \<Rightarrow> bool" where
  "plain_cue_in cue [] = plain_cue_at cue []"
| "plain_cue_in cue (x # xs) = (plain_cue_at cue (x # xs) \<or> plain_cue_in cue xs)"

text \<open>The extractor's output on a text, as a plain list.\<close>

definition metrics_of :: "ustring \<Rightarrow> FinancialMetric list" where
  "metrics_of text = (case extract_financial_metrics text of Inl e \<Rightarrow> [] | Inr found \<Rightarrow> found)"

section \<open>The table detector\<close>

text \<open>The two shapes of a table in the result: the dictionary with the keys
  \<^verbatim>\<open>type\<close> (always \<^verbatim>\<open>'extracted_table'\<close>), \<^verbatim>\<open>rows\<close> and \<^verbatim>\<open>confidence\<close> that the
  detector builds, and the one with \<^verbatim>\<open>sheet_name\<close>, \<^verbatim>\<open>data\<close> and \<^verbatim>\<open>columns\<close> that
  the spreadsheet and CSV paths build. A cell of a row record is a number, a
  text or empty.\<close>

datatype cell = Num rat | Txt ustring | Empty

type_synonym row_record = "(ustring \<times> cell) list"

datatype table =
    Extracted_table (rows: "ustring list") (table_confidence: rat)
  | Sheet_table (sheet_name: ustring) (data: "row_record list") (columns: "ustring list")

definition table_row_pattern :: regex where
  \<comment> \<open>\<^verbatim>\<open>\s+\d+.*\d+.*\d+\<close>\<close>
  "table_row_pattern = seqs [Plus Space, Plus Digit, Star Dot, Plus Digit, Star Dot, Plus Digit]"

text \<open>The test of line 195: \<^verbatim>\<open>re.search(r'\s+\d+.*\d+.*\d+', line)\<close> is truthy.\<close>

definition is_table_row :: "ustring \<Rightarrow> bool" where
  "is_table_row line = (re_search table_row_pattern line \<noteq> None)"

text \<open>One turn of the loop of lines 193 to 205 on the pair of \<^verbatim>\<open>tables\<close> and
  \<^verbatim>\<open>current_table\<close>.\<close>

definition table_step :: "table list \<times> ustring list \<Rightarrow> ustring \<Rightarrow> table list \<times> ustring list" where
  "table_step st line =
     (case st of (tables, current_table) \<Rightarrow>
        if is_table_row line then (tables, current_table @ [strip line])
        else if current_table \<noteq> [] then
          (if length current_table > 2
           then (tables @ [Extracted_table current_table (6 / 10)], [])
           else (tables, []))
        else (tables, current_table))"

fun table_loop :: "ustring list \<Rightarrow> table list \<times> ustring list \<Rightarrow> table list \<times> ustring list" where
  "table_loop [] st = st"
| "table_loop (line # lines) st = table_loop lines (table_step st line)"

definition extract_tables_from_text :: "ustring \<Rightarrow> table list" where
  "extract_tables_from_text text = fst (table_loop (split_nl text) ([], []))"

text \<open>
  The row test in the words of the specification: the line has at least three
  whitespace-separated numeric tokens in a row, a numeric token being a
  non-empty word of digits.
\<close>

definition numeric_token :: "ustring \<Rightarrow> bool" where
  "numeric_token w = (w \<noteq> [] \<and> list_all is_digit w)"

fun three_in_sequence :: "bool list \<Rightarrow> bool" where
  "three_in_sequence (a # b # c # rest) = ((a \<and> b \<and> c) \<or> three_in_sequence (b # c # rest))"
| "three_in_sequence _ = False"

definition spec_numeric_row :: "ustring \<Rightarrow> bool" where
  "spec_numeric_row line =
     three_in_sequence (map numeric_token (filter (\<lambda>w. w \<noteq> []) (words line)))"

text \<open>
  The tables in the words of the specification. The closed runs of a list are
  its maximal runs of consecutive elements that pass a test and are followed by
  an element that fails it; a run that reaches the end of the list is not
  closed. The detector's tables are the closed runs of numeric rows with more
  than two lines, trimmed, each with confidence 0.6.
\<close>

function closed_runs :: "('a \<Rightarrow> bool) \<Rightarrow> 'a list \<Rightarrow> 'a list list" where
  "closed_runs P xs =
     (case dropWhile P xs of
        [] \<Rightarrow> []
      | y # ys \<Rightarrow>
          if takeWhile P xs = [] then closed_runs P ys
          else takeWhile P xs # closed_runs P ys)"
  by pat_completeness auto
termination
proof (relation "measure (\<lambda>(P, xs). length xs)")
  show "wf (measure (\<lambda>(P :: 'a \<Rightarrow> bool, xs). length xs))" by simp
next
  fix P :: "'a \<Rightarrow> bool" and xs y ys
  assume "dropWhile P xs = y # ys"
  then have "length (y # ys) \<le> length xs"
    using length_dropWhile_le [of P xs] by simp
  then show "((P, ys), (P, xs)) \<in> measure (\<lambda>(P, xs). length xs)" by simp
next
  fix P :: "'a \<Rightarrow> bool" and xs y ys
  assume "dropWhile P xs = y # ys"
  then have "length (y # ys) \<le> length xs"
    using length_dropWhile_le [of P xs] by simp
  then show "((P, ys), (P, xs)) \<in> measure (\<lambda>(P, xs). length xs)" by simp
qed

declare closed_runs.simps [simp del]

definition spec_tables :: "ustring \<Rightarrow> table list" where
  "spec_tables text =
     map (\<lambda>run. Extracted_table (map strip run) (6 / 10))
         (filter (\<lambda>run. 2 < length run) (closed_runs is_table_row (split_nl text)))"

section \<open>The three extraction paths\<close>

record parse_result =
  extracted_text :: ustring
  tables :: "table list"
  metrics :: "FinancialMetric list"
  confidence :: rat

text \<open>
  What the readers hand over. A PDF is the list of the texts of its pages
  (\<^verbatim>\<open>page.extract_text()\<close>); a data frame is its column names, its row records
  (\<^verbatim>\<open>df.to_dict('records')\<close>) and its rendering (\<^verbatim>\<open>df.to_string()\<close>); a workbook is
  the list of its sheets in order, each a name and a data frame. A reader that
  fails raises inside the \<^verbatim>\<open>try\<close>, so each path takes either the error or the
  data. The handlers (lines 117, 154, 183) turn any exception into an
  \<^verbatim>\<open>HTTPException\<close> with status 500. (Their \<^verbatim>\<open>raise\<close> statements pass the
  message as a positional argument after the keyword argument \<^verbatim>\<open>status_code\<close>,
  which Python does not accept; the model takes the status they name.)
\<close>

record dataframe =
  df_columns :: "ustring list"
  df_records :: "row_record list"
  df_to_string :: ustring

definition parse_pdf :: "error + ustring list \<Rightarrow> error + parse_result" where
  "parse_pdf src =
     (case src of
        Inl e \<Rightarrow> Inl (HTTPException 500)
      | Inr pages \<Rightarrow>
          (let text = foldl (\<lambda>t page. t @ page @ [newline]) [] pages;
               tabs = extract_tables_from_text text
           in case extract_financial_metrics text of
                Inl e \<Rightarrow> Inl (HTTPException 500)
              | Inr found \<Rightarrow>
                  Inr \<lparr> extracted_text = text, tables = tabs, metrics = found,
                        confidence = 8 / 10 \<rparr>))"

text \<open>The loop over the sheets (lines 129 to 143) on \<^verbatim>\<open>text\<close>, \<^verbatim>\<open>tables\<close> and
  \<^verbatim>\<open>all_metrics\<close>. A local variable that shares its name with a key of the result
  is shortened (\<open>tabs\<close>, \<open>found\<close>, \<open>name\<close>).\<close>

fun sheet_loop ::
  "(ustring \<times> dataframe) list \<Rightarrow> ustring \<times> table list \<times> FinancialMetric list
     \<Rightarrow> error + ustring \<times> table list \<times> FinancialMetric list" where
  "sheet_loop [] st = Inr st"
| "sheet_loop ((name, df) # sheets) (text, tabs, all_metrics) =
     (let sheet_text = df_to_string df;
          text' = text @ ustr ''Sheet: '' @ name @ [newline] @ sheet_text @ [newline, newline];
          tabs' = tabs @ [Sheet_table name (df_records df) (df_columns df)]
      in case extract_financial_metrics sheet_text of
           Inl e \<Rightarrow> Inl e
         | Inr sheet_metrics \<Rightarrow> sheet_loop sheets (text', tabs', all_metrics @ sheet_metrics))"

definition parse_excel :: "error + (ustring \<times> dataframe) list \<Rightarrow> error + parse_result" where
  "parse_excel src =
     (case src of
        Inl e \<Rightarrow> Inl (HTTPException 500)
      | Inr excel_data \<Rightarrow>
          (case sheet_loop excel_data ([], [], []) of
             Inl e \<Rightarrow> Inl (HTTPException 500)
           | Inr (text, tabs, all_metrics) \<Rightarrow>
               Inr \<lparr> extracted_text = text, tables = tabs, metrics = all_metrics,
                     confidence = 9 / 10 \<rparr>))"

text \<open>
  The metrics of a workbook in the words of the specification, where the
  textual form of a sheet is the sheet label and the tabular dump, and the
  extractor runs on each sheet's textual form.
\<close>

definition spec_sheet_text :: "ustring \<times> dataframe \<Rightarrow> ustring" where
  "spec_sheet_text sheet =
     (case sheet of (name, df) \<Rightarrow>
        ustr ''Sheet: '' @ name @ [newline] @ df_to_string df @ [newline, newline])"

definition spec_excel_metrics :: "(ustring \<times> dataframe) list \<Rightarrow> FinancialMetric list" where
  "spec_excel_metrics excel_data = concat (map (\<lambda>sheet. metrics_of (spec_sheet_text sheet)) excel_data)"

definition parse_csv :: "error + dataframe \<Rightarrow> error + parse_result" where
  "parse_csv src =
     (case src of
        Inl e \<Rightarrow> Inl (HTTPException 500)
      | Inr df \<Rightarrow>
          (let text = df_to_string df;
               tabs = [Sheet_table (ustr ''csv_data'') (df_records df) (df_columns df)]
           in case extract_financial_metrics text of
                Inl e \<Rightarrow> Inl (HTTPException 500)
              | Inr found \<Rightarrow>
                  Inr \<lparr> extracted_text = text, tables = tabs, metrics = found,
                        confidence = 9 / 10 \<rparr>))"

section \<open>Lowercasing and substrings\<close>

lemma lower_latin1_idem: "lower_latin1 (lower_latin1 c) = lower_latin1 c"
proof (cases c)
  case (Char b0 b1 b2 b3 b4 b5 b6 b7)
  then show ?thesis
    by (cases b5; cases b6; cases b7; cases b0; cases b1; cases b2; cases b3; cases b4;
        simp add: lower_latin1_def)
qed

lemma of_char_lower_latin1:
  "(of_char (lower_latin1 c) :: nat) =
     (if (65 \<le> (of_char c :: nat) \<and> (of_char c :: nat) \<le> 90)
         \<or> (192 \<le> (of_char c :: nat) \<and> (of_char c :: nat) \<le> 222 \<and> (of_char c :: nat) \<noteq> 215)
      then of_char c + 32 else of_char c)"
proof (cases c)
  case (Char b0 b1 b2 b3 b4 b5 b6 b7)
  then show ?thesis
    by (cases b5; cases b6; cases b7; cases b0; cases b1; cases b2; cases b3; cases b4;
        simp add: lower_latin1_def)
qed

lemma lower_latin1_k: "lower_latin1 CHR ''k'' = CHR ''k''"
  by (simp add: lower_latin1_def)

lemma lower_chr_idem: "lower_chr (lower_chr x) = lower_chr x"
  by (cases x) (simp_all add: lower_chr_def lower_latin1_idem lower_latin1_k)

lemma lower_idem: "lower (lower s) = lower s"
  by (simp add: lower_def lower_chr_idem)

lemma ignorecase_eq_lower: "ignorecase_eq c (lower_chr x) = ignorecase_eq c x"
  by (cases x) (simp_all add: ignorecase_eq_def lower_chr_def lower_latin1_idem lower_latin1_k)

lemma py_in_iff: "py_in sub s \<longleftrightarrow> (\<exists>u v. s = u @ sub @ v)"
proof (induction s)
  case Nil
  then show ?case by auto
next
  case (Cons c cs)
  have "(\<exists>u v. c # cs = u @ sub @ v) \<longleftrightarrow> prefix sub (c # cs) \<or> (\<exists>u v. cs = u @ sub @ v)"
  proof
    assume "\<exists>u v. c # cs = u @ sub @ v"
    then obtain u v where uv: "c # cs = u @ sub @ v" by blast
    show "prefix sub (c # cs) \<or> (\<exists>u v. cs = u @ sub @ v)"
    proof (cases u)
      case Nil
      with uv show ?thesis by (auto simp: prefix_def)
    next
      case (Cons a u')
      with uv have "cs = u' @ sub @ v" by simp
      then show ?thesis by blast
    qed
  next
    assume "prefix sub (c # cs) \<or> (\<exists>u v. cs = u @ sub @ v)"
    then show "\<exists>u v. c # cs = u @ sub @ v"
    proof
      assume "prefix sub (c # cs)"
      then obtain v where "c # cs = sub @ v" by (auto simp: prefix_def)
      then have "c # cs = [] @ sub @ v" by simp
      then show ?thesis by blast
    next
      assume "\<exists>u v. cs = u @ sub @ v"
      then obtain u v where "cs = u @ sub @ v" by blast
      then have "c # cs = (c # u) @ sub @ v" by simp
      then show ?thesis by blast
    qed
  qed
  with Cons show ?case by simp
qed

section \<open>Facts about the matcher\<close>

lemma star_ms_iff:
  "(c, r) \<in> set (star_ms a s) \<longleftrightarrow> s = c @ r \<and> (\<forall>x \<in> set c. accepts a x)"
proof (induction s arbitrary: c r)
  case Nil
  then show ?case by auto
next
  case (Cons x xs)
  show ?case
  proof (cases "accepts a x")
    case True
    then show ?thesis
      using Cons by (cases c) (auto simp: image_iff Bex_def)
  next
    case False
    then show ?thesis
      by (cases c) auto
  qed
qed

lemma in_ms_Atom:
  "(c, g, r) \<in> set (ms (Atom a) s) \<longleftrightarrow> (\<exists>x. s = x # r \<and> c = [x] \<and> g = None \<and> accepts a x)"
  by (cases s) auto

lemma in_ms_Seq:
  "(c, g, r) \<in> set (ms (Seq r1 r2) s) \<longleftrightarrow>
     (\<exists>c1 g1 s1 c2 g2. (c1, g1, s1) \<in> set (ms r1 s) \<and> (c2, g2, r) \<in> set (ms r2 s1)
        \<and> c = c1 @ c2 \<and> g = (case g2 of None \<Rightarrow> g1 | Some h \<Rightarrow> Some h))"
  by (auto simp: image_iff Bex_def) blast+

lemma in_ms_Star:
  "(c, g, r) \<in> set (ms (Star a) s) \<longleftrightarrow> g = None \<and> s = c @ r \<and> (\<forall>x \<in> set c. accepts a x)"
  by (auto simp: image_iff Bex_def star_ms_iff)

lemma in_ms_Plus:
  "(c, g, r) \<in> set (ms (Plus a) s) \<longleftrightarrow>
     g = None \<and> c \<noteq> [] \<and> s = c @ r \<and> (\<forall>x \<in> set c. accepts a x)"
  by (auto simp: image_iff Bex_def star_ms_iff)

lemma in_ms_Opt:
  "(c, g, r) \<in> set (ms (Opt q) s) \<longleftrightarrow> (c, g, r) \<in> set (ms q s) \<or> (c = [] \<and> g = None \<and> r = s)"
  by auto

lemma in_ms_Group:
  "(c, g, r) \<in> set (ms (Group q) s) \<longleftrightarrow> (\<exists>h. (c, h, r) \<in> set (ms q s)) \<and> g = Some c"
  by (auto simp: image_iff Bex_def)

lemma ms_decomp: "(c, g, r) \<in> set (ms q s) \<Longrightarrow> s = c @ r"
proof (induction q arbitrary: s c g r)
  case (Seq q1 q2)
  then show ?case unfolding in_ms_Seq by fastforce
next
  case (Alt q1 q2)
  then show ?case by auto
next
  case (Opt q)
  then show ?case unfolding in_ms_Opt by auto
next
  case (Group q)
  then show ?case unfolding in_ms_Group by auto
next
  case Eps
  then show ?case by auto
qed (auto simp: in_ms_Atom in_ms_Star in_ms_Plus simp del: ms.simps)

lemma nogroup_None: "nogroup q \<Longrightarrow> (c, g, r) \<in> set (ms q s) \<Longrightarrow> g = None"
proof (induction q arbitrary: s c g r)
  case (Seq q1 q2)
  then show ?case unfolding in_ms_Seq by (fastforce split: option.splits)
next
  case (Alt q1 q2)
  then show ?case by auto
next
  case (Opt q)
  then show ?case unfolding in_ms_Opt by auto
next
  case Eps
  then show ?case by auto
qed (auto simp: in_ms_Atom in_ms_Star in_ms_Plus simp del: ms.simps)


lemma in_ms_Eps: "(c, g, r) \<in> set (ms Eps s) \<longleftrightarrow> c = [] \<and> g = None \<and> r = s"
  by auto

lemma lower_latin1_eq_comma: "lower_latin1 CHR '','' = lower_latin1 y \<longleftrightarrow> y = CHR '',''"
proof (cases y)
  case (Char b0 b1 b2 b3 b4 b5 b6 b7)
  then show ?thesis
    by (cases b5; cases b6; cases b7; cases b0; cases b1; cases b2; cases b3; cases b4;
        simp add: lower_latin1_def)
qed

lemma lower_latin1_eq_dot: "lower_latin1 CHR ''.'' = lower_latin1 y \<longleftrightarrow> y = CHR ''.''"
proof (cases y)
  case (Char b0 b1 b2 b3 b4 b5 b6 b7)
  then show ?thesis
    by (cases b5; cases b6; cases b7; cases b0; cases b1; cases b2; cases b3; cases b4;
        simp add: lower_latin1_def)
qed

lemma accepts_comma: "accepts (Lit CHR '','') x \<longleftrightarrow> x = Chr CHR '',''"
proof (cases x)
  case (Chr y)
  then show ?thesis using lower_latin1_eq_comma [of y] by (simp add: ignorecase_eq_def)
qed (simp_all add: ignorecase_eq_def lower_latin1_def)

lemma accepts_dot: "accepts (Lit CHR ''.'') x \<longleftrightarrow> x = Chr CHR ''.''"
proof (cases x)
  case (Chr y)
  then show ?thesis using lower_latin1_eq_dot [of y] by (simp add: ignorecase_eq_def)
qed (simp_all add: ignorecase_eq_def lower_latin1_def)

lemma accepts_digit_range: "accepts (Range CHR ''0'' CHR ''9'') x \<longleftrightarrow> is_digit x"
  by (simp add: is_digit_def Let_def)

text \<open>What the number group \<^verbatim>\<open>([0-9,]+\.?[0-9]*)\<close> can capture.\<close>

lemma number_group_match:
  assumes "(c, g, r) \<in> set (ms number_group s)"
  shows "g = Some c \<and> c \<noteq> [] \<and> (\<forall>x \<in> set c. is_digit x \<or> x = Chr CHR '','' \<or> x = Chr CHR ''.'')"
  using assms
  unfolding number_group_def seqs_def foldr.simps o_apply id_apply
    in_ms_Group in_ms_Seq in_ms_Plus in_ms_Opt in_ms_Atom in_ms_Star in_ms_Eps
  by (auto simp: accepts_comma accepts_dot accepts_digit_range simp del: accepts.simps(1,5))

lemma number_captured_match:
  assumes "number_captured p" and "(g0, g1, rest) \<in> set (ms p s)"
  shows "\<exists>g. g1 = Some g \<and> g \<noteq> [] \<and> (\<forall>x \<in> set g. is_digit x \<or> x = Chr CHR '','' \<or> x = Chr CHR ''.'')"
proof -
  from assms(1) obtain label sep tail where
    p: "p = Seq label (Seq sep (Seq number_group tail))"
    and ng: "nogroup label" "nogroup sep" "nogroup tail"
    by (auto elim!: number_captured.elims(2))
  from assms(2) [unfolded p in_ms_Seq] obtain c1 h1 s1 c2 h2 s2 c3 h3 s3 c4 h4 where
    m1: "(c1, h1, s1) \<in> set (ms label s)" and
    m2: "(c2, h2, s2) \<in> set (ms sep s1)" and
    m3: "(c3, h3, s3) \<in> set (ms number_group s2)" and
    m4: "(c4, h4, rest) \<in> set (ms tail s3)" and
    g: "g1 = (case (case (case h4 of None \<Rightarrow> h3 | Some h \<Rightarrow> Some h) of None \<Rightarrow> h2 | Some h \<Rightarrow> Some h)
              of None \<Rightarrow> h1 | Some h \<Rightarrow> Some h)"
    by blast
  from nogroup_None [OF ng(3) m4] have "h4 = None" .
  moreover from number_group_match [OF m3] have
    "h3 = Some c3" "c3 \<noteq> []" "\<forall>x \<in> set c3. is_digit x \<or> x = Chr CHR '','' \<or> x = Chr CHR ''.''"
    by auto
  ultimately show ?thesis using g by simp
qed

lemma nogroup_str: "nogroup (str w)"
  by (induction w) (simp_all add: str_def)

lemma nogroup_alts: "(\<forall>q \<in> set qs. nogroup q) \<Longrightarrow> nogroup (alts qs)"
  by (induction qs rule: alts.induct) simp_all

lemma nogroup_magnitude: "nogroup magnitude"
  by (simp add: magnitude_def seqs_def nogroup_alts nogroup_str)

lemma registry_number_captured:
  "(n, p) \<in> set load_financial_patterns \<Longrightarrow> number_captured p"
  by (auto simp: load_financial_patterns_def seqs_def nogroup_alts nogroup_str nogroup_magnitude
        sep_money_def sep_plain_def percent_def)

lemma match_here_in_ms: "match_here p s = Some m \<Longrightarrow> m \<in> set (ms p s)"
  by (auto simp: match_here_def split: list.splits)

lemma finditer_from_match:
  "m \<in> set (finditer p s) \<Longrightarrow> \<exists>u v. s = u @ v \<and> match_here p v = Some m"
proof (induction p s rule: finditer.induct)
  case (1 r)
  then show ?case by (auto split: option.splits)
next
  case (2 r c cs)
  show ?case
  proof (cases "match_here r (c # cs)")
    case None
    with 2 obtain u v where "cs = u @ v" "match_here r v = Some m" by auto
    then have "c # cs = (c # u) @ v \<and> match_here r v = Some m" by simp
    then show ?thesis by blast
  next
    case (Some hit)
    obtain g0 g1 rest where hit: "hit = (g0, g1, rest)" by (cases hit)
    from match_here_in_ms [OF Some [unfolded hit]] have dec: "c # cs = g0 @ rest"
      by (rule ms_decomp)
    show ?thesis
    proof (cases "m = hit")
      case True
      with Some have "c # cs = [] @ (c # cs) \<and> match_here r (c # cs) = Some m" by simp
      then show ?thesis by blast
    next
      case False
      show ?thesis
      proof (cases "length rest < length (c # cs)")
        case True
        with 2(2) [OF Some hit [symmetric] refl True] False 2(4) Some hit
        obtain u v where "rest = u @ v" "match_here r v = Some m" by auto
        with dec have "c # cs = (g0 @ u) @ v \<and> match_here r v = Some m" by simp
        then show ?thesis by blast
      next
        case F: False
        with 2(3) [OF Some hit [symmetric] refl F] False 2(4) Some hit
        obtain u v where "cs = u @ v" "match_here r v = Some m" by auto
        then have "c # cs = (c # u) @ v \<and> match_here r v = Some m" by simp
        then show ?thesis by blast
      qed
    qed
  qed
qed

section \<open>The extractor as a list comprehension\<close>

lemma py_float_error: "py_float t = Inl e \<Longrightarrow> e = ValueError"
  by (auto simp: py_float_def Let_def split: prod.splits if_splits)

lemma match_loop_eq:
  "(\<forall>m \<in> set matches. fst (snd m) \<noteq> None) \<Longrightarrow>
   match_loop n matches acc = Inr (acc @ concat (map (emitted n) matches))"
proof (induction matches arbitrary: acc)
  case Nil
  then show ?case by simp
next
  case (Cons m matches)
  obtain g0 g1 rest where m: "m = (g0, g1, rest)" by (cases m)
  with Cons.prems obtain g where g1: "g1 = Some g" by auto
  from Cons.prems have rest: "\<forall>m \<in> set matches. fst (snd m) \<noteq> None" by simp
  show ?case
  proof (cases "py_float (remove_commas g)")
    case (Inl e)
    then have "e = ValueError" by (rule py_float_error)
    with Inl m g1 Cons.IH [OF rest] show ?thesis
      by (simp add: metric_of_match_def emitted_def)
  next
    case (Inr v)
    with m g1 Cons.IH [OF rest] show ?thesis
      by (simp add: metric_of_match_def emitted_def)
  qed
qed

lemma finditer_captured:
  assumes "number_captured p" and "m \<in> set (finditer p s)"
  shows "\<exists>g. fst (snd m) = Some g \<and> g \<noteq> [] \<and> (\<forall>x \<in> set g. is_digit x \<or> x = Chr CHR '','' \<or> x = Chr CHR ''.'')"
proof -
  from finditer_from_match [OF assms(2)] obtain u v where "match_here p v = Some m" by blast
  then have "m \<in> set (ms p v)" by (rule match_here_in_ms)
  then have "(fst m, fst (snd m), snd (snd m)) \<in> set (ms p v)" by simp
  from number_captured_match [OF assms(1) this] show ?thesis .
qed

lemma pattern_loop_eq:
  "(\<forall>(n, p) \<in> set ps. number_captured p) \<Longrightarrow>
   pattern_loop ps t acc =
     Inr (acc @ concat (map (\<lambda>(n, p). concat (map (emitted n) (finditer p t))) ps))"
proof (induction ps arbitrary: acc)
  case Nil
  then show ?case by simp
next
  case (Cons np ps)
  obtain n p where np: "np = (n, p)" by (cases np)
  with Cons.prems have cap: "number_captured p" by simp
  have "\<forall>m \<in> set (finditer p t). fst (snd m) \<noteq> None"
    using finditer_captured [OF cap] by fastforce
  from match_loop_eq [OF this]
  have "match_loop n (finditer p t) acc = Inr (acc @ concat (map (emitted n) (finditer p t)))" .
  moreover from Cons.prems have "\<forall>(n, p) \<in> set ps. number_captured p" by simp
  ultimately show ?case using Cons.IH np by simp
qed

lemma extract_financial_metrics_eq:
  "extract_financial_metrics text =
     Inr (concat (map (\<lambda>(n, p). concat (map (emitted n) (finditer p (lower text))))
                      load_financial_patterns))"
proof -
  have "\<forall>(n, p) \<in> set load_financial_patterns. number_captured p"
    using registry_number_captured by blast
  from pattern_loop_eq [OF this, of "lower text" "[]"] show ?thesis
    by (simp add: extract_financial_metrics_def)
qed

section \<open>Values of the emitted metrics\<close>

lemma overflow_bound_pos: "0 < overflow_bound"
  by (simp add: overflow_bound_def)

lemma to_double_nonneg:
  "0 \<le> q \<Longrightarrow> to_double q = PosInf \<or> (to_double q = Finite q \<and> q < overflow_bound)"
  using overflow_bound_pos by (auto simp: to_double_def)

lemma py_float_unsigned:
  assumes "\<forall>x \<in> set t. is_digit x \<or> x = Chr CHR ''.''" and "py_float t = Inr v"
  shows "v = PosInf \<or> (\<exists>q. v = Finite q \<and> 0 \<le> q \<and> q < overflow_bound)"
proof -
  have nosign: "\<And>c cs. t = c # cs \<Longrightarrow> c \<noteq> Chr CHR ''-'' \<and> c \<noteq> Chr CHR ''+''"
    using assms(1) by (auto simp: is_digit_def code_def)
  define body where "body = t"
  define ip where "ip = takeWhile is_digit body"
  define fp where "fp = (case dropWhile is_digit body of [] \<Rightarrow> [] | c # cs \<Rightarrow> cs)"
  define q :: rat where "q = of_nat (digits_value (ip @ fp)) / 10 ^ length fp"
  have "py_float t = Inl ValueError \<or> py_float t = Inr (to_double q)"
    using nosign unfolding py_float_def body_def ip_def fp_def q_def
    by (cases t) (auto simp: Let_def)
  with assms(2) have v: "v = to_double q" by auto
  have q0: "0 \<le> q" by (simp add: q_def)
  from to_double_nonneg [OF q0] q0 v show ?thesis by auto
qed

lemma remove_commas_charset:
  "\<forall>x \<in> set g. is_digit x \<or> x = Chr CHR '','' \<or> x = Chr CHR ''.'' \<Longrightarrow>
   \<forall>x \<in> set (remove_commas g). is_digit x \<or> x = Chr CHR ''.''"
  by (auto simp: remove_commas_def)

lemma emitted_metric:
  assumes "metric \<in> set (emitted n m)"
  shows "\<exists>g0 g rest. m = (g0, Some g, rest) \<and> py_float (remove_commas g) = Inr (m_value metric)
     \<and> metric = \<lparr> m_name = n, m_value = m_value metric, m_unit = determine_unit g0,
                   m_period = ''current'', m_source = ''document_extraction'',
                   m_confidence = 7 / 10 \<rparr>"
  using assms
  by (cases m) (auto simp: emitted_def metric_of_match_def split: option.splits sum.splits)

lemma found_metric:
  assumes "extract_financial_metrics text = Inr found" and "metric \<in> set found"
  shows "\<exists>n p g0 g rest. (n, p) \<in> set load_financial_patterns
     \<and> (g0, Some g, rest) \<in> set (finditer p (lower text))
     \<and> py_float (remove_commas g) = Inr (m_value metric)
     \<and> metric = \<lparr> m_name = n, m_value = m_value metric, m_unit = determine_unit g0,
                   m_period = ''current'', m_source = ''document_extraction'',
                   m_confidence = 7 / 10 \<rparr>"
proof -
  from assms obtain n p m where np: "(n, p) \<in> set load_financial_patterns"
    and m: "m \<in> set (finditer p (lower text))" and e: "metric \<in> set (emitted n m)"
    unfolding extract_financial_metrics_eq by auto
  from emitted_metric [OF e] m np show ?thesis by blast
qed

text \<open>
  C7, as the code has it: every emitted metric has the three constants, a name
  and a unit that come from one match of one registry pattern on the lowercased
  text (the unit resolved from the whole matched span), and the value read from
  that match's group 1, which is never negative. It is finite unless the
  captured decimal is at least \<open>overflow_bound\<close>, where \<^verbatim>\<open>float\<close> yields infinity.
\<close>

theorem emitted_metric_fields:
  assumes "extract_financial_metrics text = Inr found" and "metric \<in> set found"
  shows "m_period metric = ''current'' \<and> m_source metric = ''document_extraction''
     \<and> m_confidence metric = 7 / 10
     \<and> (m_value metric = PosInf \<or> (\<exists>q. m_value metric = Finite q \<and> 0 \<le> q \<and> q < overflow_bound))
     \<and> (\<exists>n p g0 g rest. (n, p) \<in> set load_financial_patterns
           \<and> (g0, Some g, rest) \<in> set (finditer p (lower text))
           \<and> m_name metric = n \<and> m_unit metric = determine_unit g0
           \<and> py_float (remove_commas g) = Inr (m_value metric))"
proof -
  from found_metric [OF assms] obtain n p g0 g rest where
    np: "(n, p) \<in> set load_financial_patterns" and
    hit: "(g0, Some g, rest) \<in> set (finditer p (lower text))" and
    val: "py_float (remove_commas g) = Inr (m_value metric)" and
    rec: "metric = \<lparr> m_name = n, m_value = m_value metric, m_unit = determine_unit g0,
                   m_period = ''current'', m_source = ''document_extraction'',
                   m_confidence = 7 / 10 \<rparr>"
    by blast
  from finditer_captured [OF registry_number_captured [OF np] hit]
  have "\<forall>x \<in> set g. is_digit x \<or> x = Chr CHR '','' \<or> x = Chr CHR ''.''" by simp
  from py_float_unsigned [OF remove_commas_charset [OF this] val]
  have nonneg: "m_value metric = PosInf \<or> (\<exists>q. m_value metric = Finite q \<and> 0 \<le> q \<and> q < overflow_bound)" .
  have fields: "m_period metric = ''current''" "m_source metric = ''document_extraction''"
    "m_confidence metric = 7 / 10" "m_name metric = n" "m_unit metric = determine_unit g0"
    by (subst rec, simp)+
  from fields nonneg np hit val show ?thesis by blast
qed

text \<open>
  C10: the extractor gives the same result on a text and on its lowercased
  form, since it lowercases the text before anything else and lowercasing twice
  is lowercasing once.
\<close>

theorem extract_lowercased:
  "extract_financial_metrics (lower text) = extract_financial_metrics text"
  by (simp add: extract_financial_metrics_def lower_idem)

section \<open>Matches need a cue\<close>

lemma str_Cons: "str (p # w) = Seq (Atom (if p = CHR ''.'' then Dot else Lit p)) (str w)"
  by (simp add: str_def)

lemma ms_str_cue: "ms (str w) s \<noteq> [] \<Longrightarrow> cue_at w s"
proof (induction w arbitrary: s)
  case Nil
  then show ?case by simp
next
  case (Cons p w)
  from Cons.prems obtain m where "m \<in> set (ms (str (p # w)) s)"
    by (meson last_in_set)
  then have "m \<in> set (ms (Seq (Atom (if p = CHR ''.'' then Dot else Lit p)) (str w)) s)"
    by (simp only: str_Cons)
  moreover obtain c g r where "m = (c, g, r)" by (cases m)
  ultimately have
    "(c, g, r) \<in> set (ms (Seq (Atom (if p = CHR ''.'' then Dot else Lit p)) (str w)) s)"
    by simp
  then obtain x s1 c2 g2 where s: "s = x # s1"
    and a: "accepts (if p = CHR ''.'' then Dot else Lit p) x"
    and rest: "(c2, g2, r) \<in> set (ms (str w) s1)"
    unfolding in_ms_Seq in_ms_Atom by blast
  from rest have "ms (str w) s1 \<noteq> []" by auto
  from Cons.IH [OF this] a s show ?case by (auto split: if_splits)
qed

lemma ms_alts_some: "qs \<noteq> [] \<Longrightarrow> ms (alts qs) s \<noteq> [] \<Longrightarrow> \<exists>q \<in> set qs. ms q s \<noteq> []"
  by (induction qs rule: alts.induct) auto

lemma ms_Seq_first: "ms (Seq r1 r2) s \<noteq> [] \<Longrightarrow> ms r1 s \<noteq> []"
  by auto

lemma labelled_match_cue:
  assumes "cs \<noteq> []" and "ms (Seq (alts (map str cs)) r) s \<noteq> []"
  shows "\<exists>cue \<in> set cs. cue_at cue s"
proof -
  from ms_Seq_first [OF assms(2)] have "ms (alts (map str cs)) s \<noteq> []" .
  from ms_alts_some [OF _ this] assms(1) obtain cue where "cue \<in> set cs" "ms (str cue) s \<noteq> []"
    by auto
  with ms_str_cue show ?thesis by blast
qed

lemma list_all2_pick: "list_all2 P xs ys \<Longrightarrow> x \<in> set xs \<Longrightarrow> \<exists>y \<in> set ys. P x y"
  by (induction rule: list_all2_induct) auto

lemma registry_labels_aligned:
  "list_all2 (\<lambda>np ncs. fst np = fst ncs \<and> snd ncs \<noteq> [] \<and> (\<exists>r. snd np = Seq (alts (map str (snd ncs))) r))
     load_financial_patterns pattern_cues"
  by (simp add: load_financial_patterns_def pattern_cues_def seqs_def)

lemma registry_labels:
  assumes "(n, p) \<in> set load_financial_patterns"
  shows "\<exists>cs r. (n, cs) \<in> set pattern_cues \<and> cs \<noteq> [] \<and> p = Seq (alts (map str cs)) r"
proof -
  from list_all2_pick [OF registry_labels_aligned assms] obtain ncs where
    "ncs \<in> set pattern_cues" "n = fst ncs" "snd ncs \<noteq> []"
    "\<exists>r. p = Seq (alts (map str (snd ncs))) r"
    by auto
  then have "(n, snd ncs) \<in> set pattern_cues \<and> snd ncs \<noteq> []
      \<and> (\<exists>r. p = Seq (alts (map str (snd ncs))) r)"
    by simp
  then show ?thesis by blast
qed

lemma cue_in_append: "cue_at cue v \<Longrightarrow> cue_in cue (u @ v)"
proof (induction u)
  case Nil
  then show ?case by (cases v) auto
next
  case (Cons a u)
  then show ?case by simp
qed

lemma finditer_cue:
  assumes "(n, p) \<in> set load_financial_patterns" and "finditer p s \<noteq> []"
  shows "\<exists>cs cue. (n, cs) \<in> set pattern_cues \<and> cue \<in> set cs \<and> cue_in cue s"
proof -
  from assms(2) obtain m where "m \<in> set (finditer p s)" by (meson last_in_set)
  from finditer_from_match [OF this] obtain u v where s: "s = u @ v" and "match_here p v = Some m"
    by blast
  then have ne: "ms p v \<noteq> []" by (auto dest: match_here_in_ms)
  from registry_labels [OF assms(1)] obtain cs r where
    cs: "(n, cs) \<in> set pattern_cues" "cs \<noteq> []" "p = Seq (alts (map str cs)) r" by blast
  from labelled_match_cue [OF cs(2) ne [unfolded cs(3)]] obtain cue where
    "cue \<in> set cs" "cue_at cue v" by blast
  with cs(1) s cue_in_append show ?thesis by blast
qed

lemma lower_latin1_eq_newline: "lower_latin1 y = CHR 0x0A \<longleftrightarrow> y = CHR 0x0A"
proof (cases y)
  case (Char b0 b1 b2 b3 b4 b5 b6 b7)
  then show ?thesis
    by (cases b5; cases b6; cases b7; cases b0; cases b1; cases b2; cases b3; cases b4;
        simp add: lower_latin1_def)
qed

lemma lower_chr_eq_newline: "lower_chr x = newline \<longleftrightarrow> x = newline"
  by (cases x) (simp_all add: lower_chr_def newline_def lower_latin1_eq_newline)

lemma cue_at_lower: "cue_at cue (lower s) = cue_at cue s"
  by (induction cue s rule: cue_at.induct)
     (simp_all add: lower_def ignorecase_eq_lower lower_chr_eq_newline)

lemma cue_in_lower: "cue_in cue (lower s) = cue_in cue s"
proof (induction s)
  case Nil
  then show ?case by (simp add: lower_def)
next
  case (Cons x s)
  have "cue_at cue (lower (x # s)) = cue_at cue (x # s)" by (rule cue_at_lower)
  with Cons show ?case by (simp add: lower_def)
qed

lemma number_parses_emitted:
  "fst (snd m) \<noteq> None \<Longrightarrow> length (emitted n m) = (if number_parses m then 1 else 0)"
  by (cases m) (auto simp: emitted_def number_parses_def metric_of_match_def split: sum.splits)

lemma length_emitted_matches:
  "\<forall>m \<in> set matches. fst (snd m) \<noteq> None \<Longrightarrow>
   length (concat (map (emitted n) matches)) = length (filter number_parses matches)"
  by (induction matches) (simp_all add: number_parses_emitted)

text \<open>
  C6, as the code has it: the extractor returns a list for every text; the list
  has one metric for each match whose captured text reads as a number and none
  for the others; and a text without any lexical cue gives the empty list,
  where a letter of a cue may stand in the text in either case or as a
  character that \<^verbatim>\<open>re.IGNORECASE\<close> or \<^verbatim>\<open>str.lower\<close> identifies with it (the
  dotless i, the long s, the Kelvin sign).
\<close>

theorem extract_total:
  "(\<exists>found. extract_financial_metrics text = Inr found
       \<and> length found =
           (\<Sum>(n, p) \<leftarrow> load_financial_patterns.
              length (filter number_parses (finditer p (lower text)))))
   \<and> ((\<forall>cue \<in> set lexical_cues. \<not> cue_in cue text) \<longrightarrow> extract_financial_metrics text = Inr [])"
proof (intro conjI impI)
  have "length (concat (map (\<lambda>(n, p). concat (map (emitted n) (finditer p (lower text)))) ps)) =
        (\<Sum>(n, p) \<leftarrow> ps. length (filter number_parses (finditer p (lower text))))"
    if "\<forall>(n, p) \<in> set ps. number_captured p" for ps
    using that
  proof (induction ps)
    case Nil
    then show ?case by simp
  next
    case (Cons np ps)
    obtain n p where np: "np = (n, p)" by (cases np)
    with Cons.prems have "number_captured p" by simp
    then have "\<forall>m \<in> set (finditer p (lower text)). fst (snd m) \<noteq> None"
      using finditer_captured by fastforce
    from length_emitted_matches [OF this] Cons np show ?case by simp
  qed
  moreover have "\<forall>(n, p) \<in> set load_financial_patterns. number_captured p"
    using registry_number_captured by blast
  ultimately show "\<exists>found. extract_financial_metrics text = Inr found
       \<and> length found =
           (\<Sum>(n, p) \<leftarrow> load_financial_patterns.
              length (filter number_parses (finditer p (lower text))))"
    unfolding extract_financial_metrics_eq by blast
next
  assume nocue: "\<forall>cue \<in> set lexical_cues. \<not> cue_in cue text"
  have "finditer p (lower text) = []" if np: "(n, p) \<in> set load_financial_patterns" for n p
  proof (rule ccontr)
    assume "finditer p (lower text) \<noteq> []"
    from finditer_cue [OF np this] obtain cs cue where
      "(n, cs) \<in> set pattern_cues" "cue \<in> set cs" "cue_in cue (lower text)" by blast
    then have "cue \<in> set lexical_cues" "cue_in cue text"
      by (force simp: lexical_cues_def, simp add: cue_in_lower)
    with nocue show False by blast
  qed
  then have "map (\<lambda>(n, p). concat (map (emitted n) (finditer p (lower text)))) load_financial_patterns
             = map (\<lambda>np. []) load_financial_patterns"
    by (intro map_cong refl) auto
  then show "extract_financial_metrics text = Inr []"
    unfolding extract_financial_metrics_eq by simp
qed

section \<open>The extractor on concrete texts\<close>

lemmas pattern_defs =
  load_financial_patterns_def seqs_def str_def sep_money_def sep_plain_def number_group_def
  magnitude_def percent_def

lemmas run_defs =
  extract_financial_metrics_def lower_def lower_chr_def lower_latin1_def ignorecase_eq_def
  code_def match_here_def is_space_def is_digit_def newline_def metric_of_match_def
  py_float_def remove_commas_def digits_value_def to_double_def overflow_bound_def
  determine_unit_def

text \<open>
  C1: the resolver on the matched span \<^verbatim>\<open>gross margin: 45%\<close>. The claim's
  resolver, where \<^verbatim>\<open>m\<close> counts as a standalone token only, answers percentage;
  the code answers millions, since its test for \<^verbatim>\<open>' m'\<close> finds the space and the
  \<^verbatim>\<open>m\<close> of \<^verbatim>\<open>margin\<close> before the test for \<^verbatim>\<open>%\<close> is reached. So the extractor
  reports a gross margin of 45 millions, while the sibling pattern for
  \<^verbatim>\<open>return on equity\<close>, whose label has no such letter, gets percentage.
\<close>

theorem margin_resolves_to_millions:
  "determine_unit (ustr ''gross margin: 45%'') = ''millions''
   \<and> spec_unit (ustr ''gross margin: 45%'') = ''percentage''
   \<and> \<not> py_in (ustr ''million'') (lower (ustr ''gross margin: 45%''))
   \<and> \<not> standalone_token (ustr ''m'') (lower (ustr ''gross margin: 45%''))
   \<and> extract_financial_metrics (ustr ''Gross margin: 45%'') =
       Inr [\<lparr> m_name = ''gross_margin'', m_value = Finite 45, m_unit = ''millions'',
              m_period = ''current'', m_source = ''document_extraction'',
              m_confidence = 7 / 10 \<rparr>]
   \<and> determine_unit (ustr ''return on equity: 15%'') = ''percentage''"
  by (simp add: pattern_defs run_defs spec_unit_def standalone_token_def)

text \<open>C5: the revenue line of the specification.\<close>

theorem revenue_example:
  "extract_financial_metrics (ustr ''Total revenue: $1,234.5 million'') =
     Inr [\<lparr> m_name = ''revenue'', m_value = Finite (12345 / 10), m_unit = ''millions'',
            m_period = ''current'', m_source = ''document_extraction'',
            m_confidence = 7 / 10 \<rparr>]"
  by (simp add: pattern_defs run_defs)

text \<open>C3: the two lines with EPS and P/E ratio; the second unit is \<^verbatim>\<open>ratio\<close>,
  resolved from the matched span \<^verbatim>\<open>p/e ratio: 18.3\<close>.\<close>

theorem eps_pe_example:
  "extract_financial_metrics (ustr ''EPS: 2.15'' @ [newline] @ ustr ''P/E Ratio: 18.3'') =
     Inr [\<lparr> m_name = ''eps'', m_value = Finite (215 / 100), m_unit = ''units'',
            m_period = ''current'', m_source = ''document_extraction'',
            m_confidence = 7 / 10 \<rparr>,
          \<lparr> m_name = ''pe_ratio'', m_value = Finite (183 / 10), m_unit = ''ratio'',
            m_period = ''current'', m_source = ''document_extraction'',
            m_confidence = 7 / 10 \<rparr>]"
  by (simp add: pattern_defs run_defs)

lemma roe_line:
  "extract_financial_metrics (ustr ''ROE: 15%'') =
     Inr [\<lparr> m_name = ''roe'', m_value = Finite 15, m_unit = ''percentage'',
            m_period = ''current'', m_source = ''document_extraction'',
            m_confidence = 7 / 10 \<rparr>]"
  by (simp add: pattern_defs run_defs)

lemma unparsable_match_skipped:
  "finditer (seqs [alts [str ''earnings per share'', str ''eps''], sep_money, number_group])
       (ustr ''eps: ,'')
     = [(ustr ''eps: ,'', Some (ustr '',''), [])]
   \<and> extract_financial_metrics (ustr ''EPS: ,'') = Inr []"
  by (simp add: pattern_defs run_defs)

theorem emitted_metric_fields_witness:
  "extract_financial_metrics (ustr ''ROE: 15%'') =
     Inr [\<lparr> m_name = ''roe'', m_value = Finite 15, m_unit = ''percentage'',
            m_period = ''current'', m_source = ''document_extraction'',
            m_confidence = 7 / 10 \<rparr>]
   \<and> m_period \<lparr> m_name = ''roe'', m_value = Finite 15, m_unit = ''percentage'',
            m_period = ''current'', m_source = ''document_extraction'',
            m_confidence = 7 / 10 \<rparr> = ''current''
   \<and> (\<exists>n p g0 g rest. (n, p) \<in> set load_financial_patterns
           \<and> (g0, Some g, rest) \<in> set (finditer p (lower (ustr ''ROE: 15%'')))
           \<and> ''roe'' = n \<and> ''percentage'' = determine_unit g0
           \<and> py_float (remove_commas g) = Inr (Finite 15))"
  using roe_line
    emitted_metric_fields [OF roe_line, of "\<lparr> m_name = ''roe'', m_value = Finite 15, m_unit = ''percentage'',
            m_period = ''current'', m_source = ''document_extraction'',
            m_confidence = 7 / 10 \<rparr>"]
  by simp

theorem extract_total_witness:
  "\<not> (\<exists>cue \<in> set lexical_cues. cue_in cue (ustr ''Hello 42''))
   \<and> extract_financial_metrics (ustr ''Hello 42'') = Inr []"
proof -
  have "\<forall>cue \<in> set lexical_cues. \<not> cue_in cue (ustr ''Hello 42'')"
    by (simp add: lexical_cues_def pattern_cues_def ignorecase_eq_def lower_latin1_def newline_def)
  with extract_total [of "ustr ''Hello 42''"] show ?thesis by blast
qed

text \<open>
  The claim as written takes a cue as its letters in either case. The text
  \<^verbatim>\<open>sales 5\<close> written with a long s has no such cue, yet the pattern for revenue
  matches it, since \<^verbatim>\<open>re.IGNORECASE\<close> lets the literal \<^verbatim>\<open>s\<close> match the long s and
  \<^verbatim>\<open>str.lower\<close> leaves the long s alone: a metric is emitted.
\<close>

theorem long_s_counterexample:
  "\<not> (\<exists>cue \<in> set lexical_cues. plain_cue_in cue (Long_s # ustr ''ales 5''))
   \<and> extract_financial_metrics (Long_s # ustr ''ales 5'') =
       Inr [\<lparr> m_name = ''revenue'', m_value = Finite 5, m_unit = ''units'',
              m_period = ''current'', m_source = ''document_extraction'',
              m_confidence = 7 / 10 \<rparr>]"
proof -
  have "\<forall>cue \<in> set lexical_cues. \<not> plain_cue_in cue (Long_s # ustr ''ales 5'')"
    by (simp add: lexical_cues_def pattern_cues_def lower_latin1_def newline_def)
  moreover have "extract_financial_metrics (Long_s # ustr ''ales 5'') =
       Inr [\<lparr> m_name = ''revenue'', m_value = Finite 5, m_unit = ''units'',
              m_period = ''current'', m_source = ''document_extraction'',
              m_confidence = 7 / 10 \<rparr>]"
    by (simp add: pattern_defs run_defs)
  ultimately show ?thesis by blast
qed

section \<open>Confidence and sheets of the extraction paths\<close>

lemma extract_metrics_of: "extract_financial_metrics text = Inr (metrics_of text)"
  by (simp add: metrics_of_def extract_financial_metrics_eq)

lemma sheet_loop_eq:
  "sheet_loop sheets (text, tabs, found) =
     Inr (text @ concat (map (\<lambda>(name, df). ustr ''Sheet: '' @ name @ [newline] @ df_to_string df
                                  @ [newline, newline]) sheets),
          tabs @ map (\<lambda>(name, df). Sheet_table name (df_records df) (df_columns df)) sheets,
          found @ concat (map (\<lambda>(name, df). metrics_of (df_to_string df)) sheets))"
proof (induction sheets arbitrary: "text" tabs found)
  case Nil
  then show ?case by simp
next
  case (Cons sheet sheets)
  obtain name df where "sheet = (name, df)" by (cases sheet)
  then show ?case
    by (simp add: Cons.IH extract_metrics_of Let_def)
qed

text \<open>
  C8: the confidence of a result is the constant of its path, whatever the
  input: 0.8 from a PDF, 0.9 from a workbook and from a CSV file. A reader that
  failed gives no result but the error with status 500.
\<close>

theorem path_confidence:
  "(\<exists>r. parse_pdf (Inr pages) = Inr r \<and> confidence r = 8 / 10)
   \<and> (\<exists>r. parse_excel (Inr excel_data) = Inr r \<and> confidence r = 9 / 10)
   \<and> (\<exists>r. parse_csv (Inr df) = Inr r \<and> confidence r = 9 / 10)
   \<and> parse_pdf (Inl e) = Inl (HTTPException 500)
   \<and> parse_excel (Inl e) = Inl (HTTPException 500)
   \<and> parse_csv (Inl e) = Inl (HTTPException 500)"
  by (simp add: parse_pdf_def parse_excel_def parse_csv_def extract_metrics_of sheet_loop_eq Let_def)

text \<open>
  C9, as the code has it: on a workbook the tables are the sheets' own tables,
  one for each sheet in sheet order, with the sheet's name, row records and
  column names as they came; the metrics are the extractor's outputs on the
  tabular dumps of the sheets (\<^verbatim>\<open>df.to_string()\<close>, without the sheet label),
  concatenated in sheet order; the text is the concatenation of the labelled
  dumps. Two sheets give two tables.
\<close>

theorem parse_excel_sheets:
  "(\<exists>r. parse_excel (Inr excel_data) = Inr r
      \<and> tables r = map (\<lambda>(name, df). Sheet_table name (df_records df) (df_columns df)) excel_data
      \<and> length (tables r) = length excel_data
      \<and> metrics r = concat (map (\<lambda>(name, df). metrics_of (df_to_string df)) excel_data)
      \<and> extracted_text r =
          concat (map (\<lambda>(name, df). ustr ''Sheet: '' @ name @ [newline] @ df_to_string df
                                      @ [newline, newline]) excel_data))
   \<and> (\<exists>r. parse_excel (Inr [(name1, df1), (name2, df2)]) = Inr r
      \<and> tables r = [Sheet_table name1 (df_records df1) (df_columns df1),
                     Sheet_table name2 (df_records df2) (df_columns df2)]
      \<and> length (tables r) = 2
      \<and> metrics r = metrics_of (df_to_string df1) @ metrics_of (df_to_string df2))"
  by (simp add: parse_excel_def sheet_loop_eq)

text \<open>
  The claim as written runs the extractor on each sheet's textual rendering,
  which the specification defines as the sheet label and the tabular dump. A
  sheet named \<^verbatim>\<open>EPS 2\<close> whose dump has no cue shows the difference: the labelled
  rendering holds \<^verbatim>\<open>eps 2\<close> and gives a metric, the code scans the dump alone
  and gives none.
\<close>

theorem sheet_label_counterexample:
  "(\<exists>r. parse_excel
          (Inr [(ustr ''EPS 2'',
                 \<lparr> df_columns = [ustr ''a''], df_records = [[(ustr ''a'', Num 1)]],
                   df_to_string = ustr ''   a'' @ [newline] @ ustr ''0  1'' \<rparr>)]) = Inr r
        \<and> metrics r = [])
   \<and> spec_excel_metrics
        [(ustr ''EPS 2'',
          \<lparr> df_columns = [ustr ''a''], df_records = [[(ustr ''a'', Num 1)]],
            df_to_string = ustr ''   a'' @ [newline] @ ustr ''0  1'' \<rparr>)]
      = [\<lparr> m_name = ''eps'', m_value = Finite 2, m_unit = ''units'',
            m_period = ''current'', m_source = ''document_extraction'',
            m_confidence = 7 / 10 \<rparr>]"
proof -
  have dump: "extract_financial_metrics (ustr ''   a'' @ [newline] @ ustr ''0  1'') = Inr []"
    by (simp add: pattern_defs run_defs)
  have labelled: "extract_financial_metrics
      (ustr ''Sheet: '' @ ustr ''EPS 2'' @ [newline] @ (ustr ''   a'' @ [newline] @ ustr ''0  1'')
         @ [newline, newline])
      = Inr [\<lparr> m_name = ''eps'', m_value = Finite 2, m_unit = ''units'',
            m_period = ''current'', m_source = ''document_extraction'',
            m_confidence = 7 / 10 \<rparr>]"
    by (simp add: pattern_defs run_defs)
  have "parse_excel
          (Inr [(ustr ''EPS 2'',
                 \<lparr> df_columns = [ustr ''a''], df_records = [[(ustr ''a'', Num 1)]],
                   df_to_string = ustr ''   a'' @ [newline] @ ustr ''0  1'' \<rparr>)])
        = Inr \<lparr> extracted_text = ustr ''Sheet: '' @ ustr ''EPS 2'' @ [newline]
                  @ (ustr ''   a'' @ [newline] @ ustr ''0  1'') @ [newline, newline],
                tables = [Sheet_table (ustr ''EPS 2'') [[(ustr ''a'', Num 1)]] [ustr ''a'']],
                metrics = [], confidence = 9 / 10 \<rparr>"
    unfolding parse_excel_def using dump by (simp add: Let_def)
  moreover have "spec_excel_metrics
        [(ustr ''EPS 2'',
          \<lparr> df_columns = [ustr ''a''], df_records = [[(ustr ''a'', Num 1)]],
            df_to_string = ustr ''   a'' @ [newline] @ ustr ''0  1'' \<rparr>)]
      = [\<lparr> m_name = ''eps'', m_value = Finite 2, m_unit = ''units'',
            m_period = ''current'', m_source = ''document_extraction'',
            m_confidence = 7 / 10 \<rparr>]"
    unfolding spec_excel_metrics_def spec_sheet_text_def metrics_of_def
    using labelled by simp
  ultimately show ?thesis by simp
qed

section \<open>The row test of the table detector\<close>

lemma split_nl_no_newline: "line \<in> set (split_nl text) \<Longrightarrow> newline \<notin> set line"
proof (induction "text" arbitrary: line)
  case Nil
  then show ?case by simp
next
  case (Cons c cs)
  show ?case
  proof (cases "c = newline")
    case True
    with Cons show ?thesis by auto
  next
    case False
    with Cons show ?thesis by (cases "split_nl cs") auto
  qed
qed

lemma re_search_iff: "re_search r s \<noteq> None \<longleftrightarrow> (\<exists>u v. s = u @ v \<and> ms r v \<noteq> [])"
proof (induction s)
  case Nil
  then show ?case by (auto simp: match_here_def split: list.splits)
next
  case (Cons c cs)
  have "(\<exists>u v. c # cs = u @ v \<and> ms r v \<noteq> []) \<longleftrightarrow>
        ms r (c # cs) \<noteq> [] \<or> (\<exists>u v. cs = u @ v \<and> ms r v \<noteq> [])"
  proof
    assume "\<exists>u v. c # cs = u @ v \<and> ms r v \<noteq> []"
    then obtain u v where uv: "c # cs = u @ v" "ms r v \<noteq> []" by blast
    show "ms r (c # cs) \<noteq> [] \<or> (\<exists>u v. cs = u @ v \<and> ms r v \<noteq> [])"
    proof (cases u)
      case Nil
      with uv show ?thesis by simp
    next
      case (Cons a u')
      with uv have "cs = u' @ v" by simp
      with uv(2) show ?thesis by blast
    qed
  next
    assume "ms r (c # cs) \<noteq> [] \<or> (\<exists>u v. cs = u @ v \<and> ms r v \<noteq> [])"
    then show "\<exists>u v. c # cs = u @ v \<and> ms r v \<noteq> []"
    proof
      assume "ms r (c # cs) \<noteq> []"
      then have "c # cs = [] @ (c # cs) \<and> ms r (c # cs) \<noteq> []" by simp
      then show ?thesis by blast
    next
      assume "\<exists>u v. cs = u @ v \<and> ms r v \<noteq> []"
      then obtain u v where "cs = u @ v" "ms r v \<noteq> []" by blast
      then have "c # cs = (c # u) @ v \<and> ms r v \<noteq> []" by simp
      then show ?thesis by blast
    qed
  qed
  with Cons show ?case
    by (auto simp: match_here_def split: list.splits option.splits)
qed

lemma table_row_pattern_unfold:
  "table_row_pattern =
     Seq (Plus Space) (Seq (Plus Digit) (Seq (Star Dot) (Seq (Plus Digit)
       (Seq (Star Dot) (Seq (Plus Digit) Eps)))))"
  by (simp add: table_row_pattern_def seqs_def)

lemma seq_step:
  "(c1, None, s1) \<in> set (ms r1 s) \<Longrightarrow> (c2, None, r) \<in> set (ms r2 s1) \<Longrightarrow> c = c1 @ c2 \<Longrightarrow>
   (c, None, r) \<in> set (ms (Seq r1 r2) s)"
  unfolding in_ms_Seq by force

text \<open>A match of \<^verbatim>\<open>\s+\d+.*\d+.*\d+\<close> at the start of a text, built from its
  shortest pieces.\<close>

lemma table_row_pattern_hit:
  assumes "is_space w" "is_digit d" "is_digit e" "is_digit f"
    and "\<forall>x \<in> set a. x \<noteq> newline" "\<forall>x \<in> set b. x \<noteq> newline"
  shows "ms table_row_pattern (w # d # a @ e # b @ f # r) \<noteq> []"
proof -
  have 6: "([f], None, r) \<in> set (ms (Seq (Plus Digit) Eps) (f # r))"
    by (rule seq_step [where ?c1.0 = "[f]" and ?s1.0 = r and ?c2.0 = "[]"])
       (simp_all add: in_ms_Plus in_ms_Eps assms del: ms.simps)
  have 5: "(b @ [f], None, r) \<in> set (ms (Seq (Star Dot) (Seq (Plus Digit) Eps)) (b @ f # r))"
    by (rule seq_step [where ?c1.0 = b and ?s1.0 = "f # r" and ?c2.0 = "[f]"])
       (simp_all add: in_ms_Star 6 assms del: ms.simps)
  have 4: "(e # b @ [f], None, r)
      \<in> set (ms (Seq (Plus Digit) (Seq (Star Dot) (Seq (Plus Digit) Eps))) (e # b @ f # r))"
    by (rule seq_step [where ?c1.0 = "[e]" and ?s1.0 = "b @ f # r" and ?c2.0 = "b @ [f]"])
       (simp_all add: in_ms_Plus 5 assms del: ms.simps)
  have 3: "(a @ e # b @ [f], None, r)
      \<in> set (ms (Seq (Star Dot) (Seq (Plus Digit) (Seq (Star Dot) (Seq (Plus Digit) Eps))))
                (a @ e # b @ f # r))"
    by (rule seq_step [where ?c1.0 = a and ?s1.0 = "e # b @ f # r" and ?c2.0 = "e # b @ [f]"])
       (simp_all add: in_ms_Star 4 assms del: ms.simps)
  have 2: "(d # a @ e # b @ [f], None, r)
      \<in> set (ms (Seq (Plus Digit) (Seq (Star Dot) (Seq (Plus Digit) (Seq (Star Dot)
                (Seq (Plus Digit) Eps))))) (d # a @ e # b @ f # r))"
    by (rule seq_step [where ?c1.0 = "[d]" and ?s1.0 = "a @ e # b @ f # r"
          and ?c2.0 = "a @ e # b @ [f]"])
       (simp_all add: in_ms_Plus 3 assms del: ms.simps)
  have 1: "(w # d # a @ e # b @ [f], None, r)
      \<in> set (ms table_row_pattern (w # d # a @ e # b @ f # r))"
    unfolding table_row_pattern_unfold
    by (rule seq_step [where ?c1.0 = "[w]" and ?s1.0 = "d # a @ e # b @ f # r"
          and ?c2.0 = "d # a @ e # b @ [f]"])
       (simp_all add: in_ms_Plus 2 assms del: ms.simps)
  then show ?thesis by auto
qed

text \<open>What a match of the pattern says about the text.\<close>

lemma table_row_pattern_shape:
  assumes "ms table_row_pattern v \<noteq> []"
  shows "\<exists>ws w d t. v = ws @ w # d # t \<and> is_space w \<and> is_digit d \<and> 2 \<le> length (filter is_digit t)"
proof -
  from assms obtain m where "m \<in> set (ms table_row_pattern v)" by (meson last_in_set)
  moreover obtain c g r where "m = (c, g, r)" by (cases m)
  ultimately have m: "(c, g, r) \<in> set (ms table_row_pattern v)" by simp
  from m [unfolded table_row_pattern_unfold in_ms_Seq [of c g r]] obtain ws g1 s1 c2 g2 where
    1: "(ws, g1, s1) \<in> set (ms (Plus Space) v)" and
    r2: "(c2, g2, r) \<in> set (ms (Seq (Plus Digit) (Seq (Star Dot) (Seq (Plus Digit)
           (Seq (Star Dot) (Seq (Plus Digit) Eps))))) s1)"
    by blast
  from r2 [unfolded in_ms_Seq [of c2 g2 r]] obtain d1 h1 s2 c3 g3 where
    2: "(d1, h1, s2) \<in> set (ms (Plus Digit) s1)" and
    r3: "(c3, g3, r) \<in> set (ms (Seq (Star Dot) (Seq (Plus Digit)
           (Seq (Star Dot) (Seq (Plus Digit) Eps)))) s2)"
    by blast
  from r3 [unfolded in_ms_Seq [of c3 g3 r]] obtain a h2 s3 c4 g4 where
    3: "(a, h2, s3) \<in> set (ms (Star Dot) s2)" and
    r4: "(c4, g4, r) \<in> set (ms (Seq (Plus Digit) (Seq (Star Dot) (Seq (Plus Digit) Eps))) s3)"
    by blast
  from r4 [unfolded in_ms_Seq [of c4 g4 r]] obtain d2 h3 s4 c5 g5 where
    4: "(d2, h3, s4) \<in> set (ms (Plus Digit) s3)" and
    r5: "(c5, g5, r) \<in> set (ms (Seq (Star Dot) (Seq (Plus Digit) Eps)) s4)"
    by blast
  from r5 [unfolded in_ms_Seq [of c5 g5 r]] obtain b h4 s5 c6 g6 where
    5: "(b, h4, s5) \<in> set (ms (Star Dot) s4)" and
    r6: "(c6, g6, r) \<in> set (ms (Seq (Plus Digit) Eps) s5)"
    by blast
  from r6 [unfolded in_ms_Seq [of c6 g6 r]] obtain d3 h5 s6 c7 g7 where
    6: "(d3, h5, s6) \<in> set (ms (Plus Digit) s5)"
    by blast
  from 1 have ws: "v = ws @ s1" "ws \<noteq> []" "\<forall>x \<in> set ws. is_space x"
    unfolding in_ms_Plus by auto
  from 2 have d1: "s1 = d1 @ s2" "d1 \<noteq> []" "\<forall>x \<in> set d1. is_digit x"
    unfolding in_ms_Plus by auto
  from 3 have a: "s2 = a @ s3" unfolding in_ms_Star by auto
  from 4 have d2: "s3 = d2 @ s4" "d2 \<noteq> []" "\<forall>x \<in> set d2. is_digit x"
    unfolding in_ms_Plus by auto
  from 5 have b: "s4 = b @ s5" unfolding in_ms_Star by auto
  from 6 have d3: "s5 = d3 @ s6" "d3 \<noteq> []" "\<forall>x \<in> set d3. is_digit x"
    unfolding in_ms_Plus by auto
  from ws(2) obtain ws' w where wsl: "ws = ws' @ [w]" by (meson rev_exhaust)
  from d1(2) obtain d d1' where d1l: "d1 = d # d1'" by (cases d1) auto
  define t where "t = d1' @ a @ d2 @ b @ d3 @ s6"
  have "v = ws' @ w # d # t"
    using ws(1) d1(1) a d2(1) b d3(1) wsl d1l by (simp add: t_def)
  moreover have "is_space w" using ws(3) wsl by simp
  moreover have "is_digit d" using d1(3) d1l by simp
  moreover have "filter is_digit d2 = d2" "filter is_digit d3 = d3"
    using d2(3) d3(3) by (simp_all add: filter_id_conv)
  then have "length d2 + length d3 \<le> length (filter is_digit t)"
    by (simp add: t_def)
  with d2(2) d3(2) have "2 \<le> length (filter is_digit t)"
    by (cases d2; cases d3) auto
  ultimately show ?thesis by blast
qed

lemma two_digits_split:
  assumes "2 \<le> length (filter P t)"
  shows "\<exists>a e b f r. t = a @ e # b @ f # r \<and> P e \<and> P f"
proof -
  from assms obtain e l where el: "filter P t = e # l" by (cases "filter P t") auto
  with assms obtain f rest where "l = f # rest" by (cases l) auto
  with el have "filter P t = e # f # rest" by simp
  then obtain a t' where t: "t = a @ e # t'" and e: "P e" and rest: "f # rest = filter P t'"
    unfolding filter_eq_Cons_iff by blast
  from rest [symmetric] obtain b r where "t' = b @ f # r" "P f"
    unfolding filter_eq_Cons_iff by blast
  with t e show ?thesis by blast
qed

lemma is_table_row_iff:
  assumes "newline \<notin> set line"
  shows "is_table_row line \<longleftrightarrow>
     (\<exists>u w d t. line = u @ w # d # t \<and> is_space w \<and> is_digit d \<and> 2 \<le> length (filter is_digit t))"
proof
  assume "is_table_row line"
  then obtain u v where uv: "line = u @ v" "ms table_row_pattern v \<noteq> []"
    unfolding is_table_row_def re_search_iff by blast
  from table_row_pattern_shape [OF uv(2)] obtain ws w d t where
    "v = ws @ w # d # t" "is_space w" "is_digit d" "2 \<le> length (filter is_digit t)" by blast
  with uv(1) have "line = (u @ ws) @ w # d # t \<and> is_space w \<and> is_digit d
      \<and> 2 \<le> length (filter is_digit t)" by simp
  then show "\<exists>u w d t. line = u @ w # d # t \<and> is_space w \<and> is_digit d
      \<and> 2 \<le> length (filter is_digit t)" by blast
next
  assume "\<exists>u w d t. line = u @ w # d # t \<and> is_space w \<and> is_digit d
      \<and> 2 \<le> length (filter is_digit t)"
  then obtain u w d t where l: "line = u @ w # d # t" and w: "is_space w" and d: "is_digit d"
    and t: "2 \<le> length (filter is_digit t)" by blast
  from two_digits_split [OF t] obtain a e b f r where
    s: "t = a @ e # b @ f # r" and e: "is_digit e" and f: "is_digit f" by blast
  from assms l s have "\<forall>x \<in> set a. x \<noteq> newline" "\<forall>x \<in> set b. x \<noteq> newline" by auto
  from table_row_pattern_hit [OF w d e f this, of r] l s
  have "line = u @ (w # d # a @ e # b @ f # r) \<and> ms table_row_pattern (w # d # a @ e # b @ f # r) \<noteq> []"
    by simp
  then show "is_table_row line"
    unfolding is_table_row_def re_search_iff by blast
qed

text \<open>
  C2, as the code has it: a line of the text is a numeric table row exactly
  when it has a whitespace character directly followed by a digit, and at least
  two more digits anywhere after that digit. Such a line extends the current
  run with its trimmed form; every other line leaves the current run empty.
\<close>

theorem table_row_test:
  assumes "line \<in> set (split_nl text)"
  shows "(is_table_row line \<longleftrightarrow>
            (\<exists>u w d t. line = u @ w # d # t \<and> is_space w \<and> is_digit d
               \<and> 2 \<le> length (filter is_digit t)))
     \<and> (is_table_row line \<longrightarrow> table_step (found, current) line = (found, current @ [strip line]))
     \<and> (\<not> is_table_row line \<longrightarrow> snd (table_step (found, current) line) = [])"
proof (intro conjI impI)
  show "is_table_row line \<longleftrightarrow>
          (\<exists>u w d t. line = u @ w # d # t \<and> is_space w \<and> is_digit d
             \<and> 2 \<le> length (filter is_digit t))"
    by (rule is_table_row_iff [OF split_nl_no_newline [OF assms]])
next
  assume "is_table_row line"
  then show "table_step (found, current) line = (found, current @ [strip line])"
    by (simp add: table_step_def)
next
  assume "\<not> is_table_row line"
  then show "snd (table_step (found, current) line) = []"
    by (simp add: table_step_def)
qed

theorem table_row_test_witness:
  "(ustr ''Page 123'') \<in> set (split_nl ((ustr ''Page 123'') @ [newline] @ (ustr ''1 2 3'')))
   \<and> is_table_row (ustr ''Page 123'')
   \<and> table_step ([], []) (ustr ''Page 123'') = ([], [(ustr ''Page 123'')])
   \<and> (ustr ''1 2 3'') \<in> set (split_nl ((ustr ''Page 123'') @ [newline] @ (ustr ''1 2 3'')))
   \<and> \<not> is_table_row (ustr ''1 2 3'')
   \<and> snd (table_step ([], [(ustr ''Page 123'')]) (ustr ''1 2 3'')) = []"
proof -
  let ?T = "(ustr ''Page 123'') @ [newline] @ (ustr ''1 2 3'')"
  have mem: "(ustr ''Page 123'') \<in> set (split_nl ?T)" "(ustr ''1 2 3'') \<in> set (split_nl ?T)"
    by (simp_all add: newline_def)
  have "(ustr ''Page 123'') = (ustr ''Page'') @ (Chr CHR '' '') # (Chr CHR ''1'') # (ustr ''23'') \<and> is_space (Chr CHR '' '')
      \<and> is_digit (Chr CHR ''1'') \<and> 2 \<le> length (filter is_digit (ustr ''23''))"
    by (simp add: is_space_def is_digit_def code_def)
  then have "\<exists>u w d t. (ustr ''Page 123'') = u @ w # d # t \<and> is_space w \<and> is_digit d
      \<and> 2 \<le> length (filter is_digit t)" by blast
  with table_row_test [OF mem(1), of "[]" "[]"] have row: "is_table_row (ustr ''Page 123'')"
    and step: "table_step ([], []) (ustr ''Page 123'') = ([], [] @ [strip (ustr ''Page 123'')])"
    by blast+
  have "strip (ustr ''Page 123'') = (ustr ''Page 123'')" by (simp add: strip_def is_space_def code_def)
  with step have step': "table_step ([], []) (ustr ''Page 123'') = ([], [(ustr ''Page 123'')])" by simp
  have norow: "\<not> is_table_row (ustr ''1 2 3'')"
    by (simp add: is_table_row_def table_row_pattern_def seqs_def match_here_def
          is_space_def is_digit_def code_def newline_def)
  with table_row_test [OF mem(2), of "[]" "[(ustr ''Page 123'')]"]
  have close: "snd (table_step ([], [(ustr ''Page 123'')]) (ustr ''1 2 3'')) = []" by blast
  from mem row step' norow close show ?thesis by blast
qed

lemmas row_defs =
  is_table_row_def table_row_pattern_def seqs_def match_here_def is_space_def is_digit_def code_def
  newline_def

text \<open>
  The claim as written asks for three whitespace-separated numeric tokens. The
  line \<^verbatim>\<open>1 2 3\<close> has them and is no row for the code (no digit after a
  whitespace has two digits after it); the line \<^verbatim>\<open>Page 123\<close> has one numeric
  token and is a row.
\<close>

theorem table_row_tokens_counterexample:
  "spec_numeric_row (ustr ''1 2 3'') \<and> \<not> is_table_row (ustr ''1 2 3'')
   \<and> is_table_row (ustr ''Page 123'') \<and> \<not> spec_numeric_row (ustr ''Page 123'')"
  by (simp add: row_defs spec_numeric_row_def numeric_token_def)

section \<open>The detector and the closed runs\<close>

lemma table_loop_rows:
  "\<forall>l \<in> set run. is_table_row l \<Longrightarrow>
   table_loop (run @ rest) (found, current) = table_loop rest (found, current @ map strip run)"
  by (induction run arbitrary: current) (simp_all add: table_step_def)

lemma table_loop_close:
  "\<not> is_table_row y \<Longrightarrow>
   table_loop (y # ys) (found, current) =
     table_loop ys (if 2 < length current then found @ [Extracted_table current (6 / 10)] else found, [])"
  by (simp add: table_step_def)

lemma table_loop_found:
  "fst (table_loop lines (found, current)) = found @ fst (table_loop lines ([], current))"
proof (induction lines arbitrary: found current)
  case Nil
  then show ?case by simp
next
  case (Cons l lines)
  have step: "table_step (found, current) l =
      (found @ fst (table_step ([], current) l), snd (table_step ([], current) l))"
    by (simp add: table_step_def)
  obtain f c where fc: "table_step ([], current) l = (f, c)" by (cases "table_step ([], current) l")
  from Cons [of "found @ f" c] Cons [of f c] step fc show ?case by simp
qed

lemma table_loop_closed_runs:
  "fst (table_loop lines ([], [])) =
     map (\<lambda>run. Extracted_table (map strip run) (6 / 10))
         (filter (\<lambda>run. 2 < length run) (closed_runs is_table_row lines))"
proof (induction is_table_row lines rule: closed_runs.induct)
  case (1 xs)
  let ?run = "takeWhile is_table_row xs"
  have xs: "xs = ?run @ dropWhile is_table_row xs" by simp
  have rows: "\<forall>l \<in> set ?run. is_table_row l" by (auto dest: set_takeWhileD)
  show ?case
  proof (cases "dropWhile is_table_row xs")
    case Nil
    from table_loop_rows [OF rows, of "[]" "[]" "[]"] xs Nil
    have "table_loop xs ([], []) = ([], map strip ?run)" by simp
    moreover have "closed_runs is_table_row xs = []"
      by (subst closed_runs.simps) (simp only: Nil list.case)
    ultimately show ?thesis by simp
  next
    case (Cons y ys)
    let ?F = "if 2 < length ?run then [Extracted_table (map strip ?run) (6 / 10)] else []"
    from Cons have noty: "\<not> is_table_row y" by (metis hd_dropWhile list.sel(1) list.distinct(1))
    from table_loop_rows [OF rows, of "y # ys" "[]" "[]"] xs Cons
    have "table_loop xs ([], []) = table_loop (y # ys) ([], map strip ?run)" by simp
    also have "\<dots> = table_loop ys (?F, [])"
      using table_loop_close [OF noty, of ys "[]" "map strip ?run"] by simp
    finally have "fst (table_loop xs ([], [])) = fst (table_loop ys (?F, []))" by simp
    then have "fst (table_loop xs ([], [])) = ?F @ fst (table_loop ys ([], []))"
      by (simp only: table_loop_found [of ys ?F "[]"])
    moreover have "fst (table_loop ys ([], [])) =
        map (\<lambda>run. Extracted_table (map strip run) (6 / 10))
            (filter (\<lambda>run. 2 < length run) (closed_runs is_table_row ys))"
      using 1 Cons by (cases "?run = []") auto
    moreover have "closed_runs is_table_row xs =
        (if ?run = [] then closed_runs is_table_row ys else ?run # closed_runs is_table_row ys)"
      by (subst closed_runs.simps) (simp only: Cons list.case)
    ultimately show ?thesis by simp
  qed
qed

lemma table_loop_append:
  "table_loop (xs @ ys) st = table_loop ys (table_loop xs st)"
  by (induction xs arbitrary: st) simp_all

text \<open>
  C4: the detector's tables are the closed runs of numeric rows with more than
  two lines, in order, each with its trimmed lines and confidence 0.6. So
  three rows and a line that is no row give one table with the three rows;
  two rows and a line that is no row give no table; and rows at the end of the
  text add nothing to the tables found before them.
\<close>

theorem detector_closed_runs:
  "extract_tables_from_text text = spec_tables text
   \<and> (split_nl text = [a, b, c, d] \<and> is_table_row a \<and> is_table_row b \<and> is_table_row c
        \<and> \<not> is_table_row d
       \<longrightarrow> extract_tables_from_text text = [Extracted_table [strip a, strip b, strip c] (6 / 10)])
   \<and> (split_nl text = [a, b, d] \<and> is_table_row a \<and> is_table_row b \<and> \<not> is_table_row d
       \<longrightarrow> extract_tables_from_text text = [])
   \<and> (split_nl text = split_nl before @ run \<and> (\<forall>l \<in> set run. is_table_row l)
       \<longrightarrow> extract_tables_from_text text = extract_tables_from_text before)"
proof (intro conjI impI)
  show "extract_tables_from_text text = spec_tables text"
    by (simp add: extract_tables_from_text_def spec_tables_def table_loop_closed_runs)
next
  assume "split_nl text = [a, b, c, d] \<and> is_table_row a \<and> is_table_row b \<and> is_table_row c
        \<and> \<not> is_table_row d"
  then show "extract_tables_from_text text = [Extracted_table [strip a, strip b, strip c] (6 / 10)]"
    by (simp add: extract_tables_from_text_def table_step_def)
next
  assume "split_nl text = [a, b, d] \<and> is_table_row a \<and> is_table_row b \<and> \<not> is_table_row d"
  then show "extract_tables_from_text text = []"
    by (simp add: extract_tables_from_text_def table_step_def)
next
  assume h: "split_nl text = split_nl before @ run \<and> (\<forall>l \<in> set run. is_table_row l)"
  obtain f c where fc: "table_loop (split_nl before) ([], []) = (f, c)"
    by (cases "table_loop (split_nl before) ([], [])")
  from h have "table_loop (split_nl text) ([], []) = table_loop (run @ []) (f, c)"
    by (simp add: table_loop_append fc)
  also have "\<dots> = (f, c @ map strip run)"
    using table_loop_rows [of run "[]" f c] h by simp
  finally show "extract_tables_from_text text = extract_tables_from_text before"
    by (simp add: extract_tables_from_text_def fc)
qed

theorem detector_closed_runs_witness:
  "split_nl ((ustr '' 1 2 3'') @ [newline] @ (ustr '' 4 5 6'') @ [newline] @ (ustr '' 7 8 9'') @ [newline] @ (ustr ''end''))
     = [(ustr '' 1 2 3''), (ustr '' 4 5 6''), (ustr '' 7 8 9''), (ustr ''end'')]
   \<and> is_table_row (ustr '' 1 2 3'') \<and> is_table_row (ustr '' 4 5 6'') \<and> is_table_row (ustr '' 7 8 9'')
   \<and> \<not> is_table_row (ustr ''end'')
   \<and> extract_tables_from_text
        ((ustr '' 1 2 3'') @ [newline] @ (ustr '' 4 5 6'') @ [newline] @ (ustr '' 7 8 9'') @ [newline] @ (ustr ''end''))
      = [Extracted_table [(ustr ''1 2 3''), (ustr ''4 5 6''), (ustr ''7 8 9'')] (6 / 10)]
   \<and> split_nl ((ustr '' 1 2 3'') @ [newline] @ (ustr '' 4 5 6'') @ [newline] @ (ustr ''end''))
     = [(ustr '' 1 2 3''), (ustr '' 4 5 6''), (ustr ''end'')]
   \<and> extract_tables_from_text ((ustr '' 1 2 3'') @ [newline] @ (ustr '' 4 5 6'') @ [newline] @ (ustr ''end'')) = []
   \<and> split_nl ((ustr ''end'') @ [newline] @ (ustr '' 1 2 3'') @ [newline] @ (ustr '' 4 5 6'') @ [newline] @ (ustr '' 7 8 9''))
     = split_nl (ustr ''end'') @ [(ustr '' 1 2 3''), (ustr '' 4 5 6''), (ustr '' 7 8 9'')]
   \<and> extract_tables_from_text
        ((ustr ''end'') @ [newline] @ (ustr '' 1 2 3'') @ [newline] @ (ustr '' 4 5 6'') @ [newline] @ (ustr '' 7 8 9''))
      = extract_tables_from_text (ustr ''end'')"
proof -
  let ?T = "(ustr '' 1 2 3'') @ [newline] @ (ustr '' 4 5 6'') @ [newline] @ (ustr '' 7 8 9'') @ [newline] @ (ustr ''end'')"
  let ?U = "(ustr '' 1 2 3'') @ [newline] @ (ustr '' 4 5 6'') @ [newline] @ (ustr ''end'')"
  let ?V = "(ustr ''end'') @ [newline] @ (ustr '' 1 2 3'') @ [newline] @ (ustr '' 4 5 6'') @ [newline] @ (ustr '' 7 8 9'')"
  have s: "split_nl ?T = [(ustr '' 1 2 3''), (ustr '' 4 5 6''), (ustr '' 7 8 9''), (ustr ''end'')]"
    by (simp add: newline_def)
  have su: "split_nl ?U = [(ustr '' 1 2 3''), (ustr '' 4 5 6''), (ustr ''end'')]"
    by (simp add: newline_def)
  have sv: "split_nl ?V = split_nl (ustr ''end'') @ [(ustr '' 1 2 3''), (ustr '' 4 5 6''), (ustr '' 7 8 9'')]"
    by (simp add: newline_def)
  have r: "is_table_row (ustr '' 1 2 3'')" "is_table_row (ustr '' 4 5 6'')" "is_table_row (ustr '' 7 8 9'')"
    "\<not> is_table_row (ustr ''end'')"
    by (simp_all add: row_defs)
  have t: "strip (ustr '' 1 2 3'') = (ustr ''1 2 3'')" "strip (ustr '' 4 5 6'') = (ustr ''4 5 6'')" "strip (ustr '' 7 8 9'') = (ustr ''7 8 9'')"
    by (simp_all add: strip_def is_space_def code_def)
  have "split_nl ?T = [(ustr '' 1 2 3''), (ustr '' 4 5 6''), (ustr '' 7 8 9''), (ustr ''end'')]
        \<and> is_table_row (ustr '' 1 2 3'') \<and> is_table_row (ustr '' 4 5 6'') \<and> is_table_row (ustr '' 7 8 9'')
        \<and> \<not> is_table_row (ustr ''end'')
      \<longrightarrow> extract_tables_from_text ?T
          = [Extracted_table [strip (ustr '' 1 2 3''), strip (ustr '' 4 5 6''), strip (ustr '' 7 8 9'')] (6 / 10)]"
    using detector_closed_runs [of ?T "(ustr '' 1 2 3'')" "(ustr '' 4 5 6'')" "(ustr '' 7 8 9'')" "(ustr ''end'')"]
    by blast
  with s r have "extract_tables_from_text ?T
      = [Extracted_table [strip (ustr '' 1 2 3''), strip (ustr '' 4 5 6''), strip (ustr '' 7 8 9'')] (6 / 10)]"
    by blast
  with t have three: "extract_tables_from_text ?T
      = [Extracted_table [(ustr ''1 2 3''), (ustr ''4 5 6''), (ustr ''7 8 9'')] (6 / 10)]" by simp
  have "split_nl ?U = [(ustr '' 1 2 3''), (ustr '' 4 5 6''), (ustr ''end'')]
        \<and> is_table_row (ustr '' 1 2 3'') \<and> is_table_row (ustr '' 4 5 6'') \<and> \<not> is_table_row (ustr ''end'')
      \<longrightarrow> extract_tables_from_text ?U = []"
    using detector_closed_runs [of ?U "(ustr '' 1 2 3'')" "(ustr '' 4 5 6'')" _ "(ustr ''end'')"]
    by blast
  with su r have two: "extract_tables_from_text ?U = []" by blast
  have all_rows: "\<forall>l \<in> set [(ustr '' 1 2 3''), (ustr '' 4 5 6''), (ustr '' 7 8 9'')]. is_table_row l"
    using r by simp
  have "split_nl ?V = split_nl (ustr ''end'') @ [(ustr '' 1 2 3''), (ustr '' 4 5 6''), (ustr '' 7 8 9'')]
        \<and> (\<forall>l \<in> set [(ustr '' 1 2 3''), (ustr '' 4 5 6''), (ustr '' 7 8 9'')]. is_table_row l)
      \<longrightarrow> extract_tables_from_text ?V = extract_tables_from_text (ustr ''end'')"
    using detector_closed_runs [of ?V _ _ _ _ "(ustr ''end'')" "[(ustr '' 1 2 3''), (ustr '' 4 5 6''), (ustr '' 7 8 9'')]"]
    by blast
  with sv all_rows have open_run: "extract_tables_from_text ?V = extract_tables_from_text (ustr ''end'')"
    by blast
  from s r three su two sv open_run show ?thesis by blast
qed

section \<open>A number too large for a float\<close>

lemma match_here_Seq:
  "match_here r1 s = Some (c1, g1, s1) \<Longrightarrow> match_here r2 s1 = Some (c2, g2, s2) \<Longrightarrow>
   match_here (Seq r1 r2) s = Some (c1 @ c2, (case g2 of None \<Rightarrow> g1 | Some h \<Rightarrow> Some h), s2)"
  by (auto simp: match_here_def split: list.splits)

lemma match_here_Group:
  "match_here r s = Some (c, g, s') \<Longrightarrow> match_here (Group r) s = Some (c, Some c, s')"
  by (auto simp: match_here_def split: list.splits)

lemma star_ms_all:
  "\<forall>x \<in> set s. accepts a x \<Longrightarrow> \<exists>t. star_ms a s = (s, []) # t"
  by (induction s) auto

lemma match_here_Plus_all:
  assumes "s \<noteq> []" and "\<forall>x \<in> set s. accepts a x"
  shows "match_here (Plus a) s = Some (s, None, [])"
proof -
  from star_ms_all [OF assms(2)] obtain t where "star_ms a s = (s, []) # t" by blast
  with assms(1) show ?thesis by (simp add: match_here_def)
qed

lemma match_here_number_digits:
  assumes "ds \<noteq> []" and "\<forall>x \<in> set ds. is_digit x"
  shows "match_here number_group ds = Some (ds, Some ds, [])"
proof -
  have "\<forall>x \<in> set ds. accepts (OneOf [Range CHR ''0'' CHR ''9'', Lit CHR '','']) x"
    using assms(2) by (simp add: is_digit_def Let_def)
  from match_here_Plus_all [OF assms(1) this]
  have 1: "match_here (Plus (OneOf [Range CHR ''0'' CHR ''9'', Lit CHR '',''])) ds
      = Some (ds, None, [])" .
  have 2: "match_here (Seq (Opt (Atom (Lit CHR ''.''))) (Seq (Star (Range CHR ''0'' CHR ''9'')) Eps)) []
      = Some ([], None, [])"
    by (simp add: match_here_def)
  from match_here_Group [OF match_here_Seq [OF 1 2]] show ?thesis
    by (simp add: number_group_def seqs_def)
qed

lemma digits_value_zeros:
  "foldl (\<lambda>n c. 10 * n + (code c - 48)) (a :: nat) (replicate k (Chr CHR ''0'')) = a * 10 ^ k"
  by (induction k arbitrary: a) (simp_all add: code_def)

lemma py_float_digits:
  assumes "ds \<noteq> []" and "\<forall>x \<in> set ds. is_digit x"
  shows "py_float ds = Inr (to_double (of_nat (digits_value ds)))"
proof -
  obtain c cs where ds: "ds = c # cs" using assms(1) by (cases ds) auto
  with assms(2) have "is_digit c" by simp
  then have nosign: "c \<noteq> Chr CHR ''-''" "c \<noteq> Chr CHR ''+''"
    by (auto simp: is_digit_def code_def)
  have tw: "takeWhile is_digit ds = ds" "dropWhile is_digit ds = []"
    using assms(2) by simp_all
  show ?thesis
    unfolding py_float_def using nosign tw assms(1) by (simp add: ds)
qed

lemma overflow_at_309: "overflow_bound \<le> 10 ^ 309"
  by (simp add: overflow_bound_def)

lemma cue_in_zeros:
  "p \<noteq> CHR ''.'' \<Longrightarrow> lower_latin1 p \<noteq> CHR ''0'' \<Longrightarrow>
   \<not> cue_in (p # ps) (replicate k (Chr CHR ''0''))"
  by (induction k) (simp_all add: ignorecase_eq_def lower_latin1_def)

lemma py_in_zeros:
  "p \<noteq> Chr CHR ''0'' \<Longrightarrow> \<not> py_in (p # ps) (replicate k (Chr CHR ''0''))"
  by (induction k) simp_all

lemma finditer_whole:
  "s \<noteq> [] \<Longrightarrow> match_here r s = Some (g0, g1, []) \<Longrightarrow> match_here r [] = None \<Longrightarrow>
   finditer r s = [(g0, g1, [])]"
  by (cases s) simp_all

lemma eps_pattern_only:
  "(''eps'', p) \<in> set load_financial_patterns \<Longrightarrow>
   p = seqs [alts [str ''earnings per share'', str ''eps''], sep_money, number_group]"
  by (simp add: load_financial_patterns_def)

text \<open>
  The finiteness in C7 fails: \<^verbatim>\<open>eps\<close> followed by a one and 309 zeros is a match
  of the \<^verbatim>\<open>eps\<close> pattern whose number is \<open>10^309\<close>, beyond every binary64 number,
  and \<^verbatim>\<open>float\<close> reads it as infinity. The metric is emitted with that value.
\<close>

theorem huge_number_counterexample:
  "extract_financial_metrics (ustr ''eps 1'' @ replicate 309 (Chr CHR ''0'')) =
     Inr [\<lparr> m_name = ''eps'', m_value = PosInf, m_unit = ''units'',
            m_period = ''current'', m_source = ''document_extraction'',
            m_confidence = 7 / 10 \<rparr>]"
proof -
  let ?zs = "replicate 309 (Chr CHR ''0'')"
  let ?ds = "Chr CHR ''1'' # ?zs"
  let ?T = "ustr ''eps 1'' @ ?zs"
  let ?p = "seqs [alts [str ''earnings per share'', str ''eps''], sep_money, number_group]"
  let ?metric = "\<lparr> m_name = ''eps'', m_value = PosInf, m_unit = ''units'',
            m_period = ''current'', m_source = ''document_extraction'',
            m_confidence = 7 / 10 \<rparr>"
  have lowerT: "lower ?T = ?T"
    by (simp add: lower_def lower_chr_def lower_latin1_def)
  have L: "match_here (alts [str ''earnings per share'', str ''eps'']) ?T
      = Some (ustr ''eps'', None, Chr CHR '' '' # ?ds)"
    by (simp add: match_here_def str_def ignorecase_eq_def lower_latin1_def)
  have S: "match_here sep_money (Chr CHR '' '' # ?ds) = Some (ustr '' '', None, ?ds)"
    by (simp add: match_here_def sep_money_def is_space_def code_def ignorecase_eq_def
          lower_latin1_def)
  have N: "match_here number_group ?ds = Some (?ds, Some ?ds, [])"
    by (rule match_here_number_digits) (simp_all add: is_digit_def code_def)
  have E: "match_here Eps [] = Some ([], None, [])"
    by (simp add: match_here_def)
  have M: "match_here ?p ?T = Some (?T, Some ?ds, [])"
    using match_here_Seq [OF L match_here_Seq [OF S match_here_Seq [OF N E]]]
    by (simp add: seqs_def)
  have M0: "match_here ?p [] = None"
    by (simp add: match_here_def seqs_def str_def)
  have hit: "finditer ?p ?T = [(?T, Some ?ds, [])]"
    by (rule finditer_whole [OF _ M M0]) simp
  have nocue: "\<forall>(n, cs) \<in> set pattern_cues. n \<noteq> ''eps'' \<longrightarrow> (\<forall>cue \<in> set cs. \<not> cue_in cue ?T)"
    by (simp add: pattern_cues_def cue_in_zeros ignorecase_eq_def lower_latin1_def newline_def)
  have others: "finditer p ?T = []"
    if np: "(n, p) \<in> set load_financial_patterns" and n: "n \<noteq> ''eps''" for n p
  proof (rule ccontr)
    assume "finditer p ?T \<noteq> []"
    from finditer_cue [OF np this] obtain cs cue where
      "(n, cs) \<in> set pattern_cues" "cue \<in> set cs" "cue_in cue ?T" by blast
    with nocue n show False by blast
  qed
  have val: "py_float (remove_commas ?ds) = Inr PosInf"
  proof -
    have "remove_commas ?ds = ?ds" by (simp add: remove_commas_def)
    moreover have "py_float ?ds = Inr (to_double (of_nat (digits_value ?ds)))"
      by (rule py_float_digits) (simp_all add: is_digit_def code_def)
    moreover have "digits_value ?ds = 10 ^ 309"
      by (simp add: digits_value_def digits_value_zeros) (simp add: code_def)
    moreover have "to_double (of_nat (10 ^ 309)) = PosInf"
      using overflow_at_309 by (simp add: to_double_def)
    ultimately show ?thesis by simp
  qed
  have unit: "determine_unit ?T = ''units''"
    by (simp add: determine_unit_def lower_def lower_chr_def lower_latin1_def py_in_zeros)
  have em: "emitted ''eps'' (?T, Some ?ds, []) = [?metric]"
    unfolding emitted_def metric_of_match_def using val unit by simp
  have eq1: "map (\<lambda>(n, p). concat (map (emitted n) (finditer p ?T))) load_financial_patterns
      = map (\<lambda>(n, p). if n = ''eps'' then [?metric] else []) load_financial_patterns"
  proof (rule map_cong [OF refl])
    fix x assume x: "x \<in> set load_financial_patterns"
    obtain n p where np: "x = (n, p)" by (cases x)
    show "(case x of (n, p) \<Rightarrow> concat (map (emitted n) (finditer p ?T)))
        = (case x of (n, p) \<Rightarrow> if n = ''eps'' then [?metric] else [])"
    proof (cases "n = ''eps''")
      case True
      with x np eps_pattern_only have "p = ?p" by blast
      with True np hit em show ?thesis by simp
    next
      case False
      with others x np have "finditer p ?T = []" by blast
      with False np show ?thesis by simp
    qed
  qed
  have eq2: "concat (map (\<lambda>(n, p). if n = ''eps'' then [?metric] else [])
      load_financial_patterns) = [?metric]"
    by (simp add: load_financial_patterns_def)
  show ?thesis
    unfolding extract_financial_metrics_eq lowerT eq1 eq2 by (rule refl)
qed

end
